theory Spec2Isabelle
  imports Main
begin

section \<open>Python strings\<close>

text \<open>
  A Python \<open>str\<close> is a sequence of Unicode code points; a code point is a
  number (an \<open>int\<close>, as \<open>ord\<close> gives it).  Literals of the source are written
  with \<open>str\<close>; every non-ASCII letter of the source (all of them are below
  U+0100) is written by its code point.
\<close>

type_synonym pystr = "int list"

definition str :: "string \<Rightarrow> pystr" where
  "str s = map of_char s"

text \<open>\<open>sep.join(xs)\<close>\<close>

fun join :: "pystr \<Rightarrow> pystr list \<Rightarrow> pystr" where
  "join sep [] = []"
| "join sep [x] = x"
| "join sep (x # y # ys) = x @ sep @ join sep (y # ys)"

text \<open>\<open>s.replace(a, b)\<close> for one-character \<open>a\<close> and \<open>b\<close>.\<close>

definition replace :: "int \<Rightarrow> int \<Rightarrow> pystr \<Rightarrow> pystr" where
  "replace a b s = map (\<lambda>c. if c = a then b else c) s"

text \<open>\<open>s[i:j]\<close> for \<open>0 \<le> i\<close>, \<open>0 \<le> j\<close>.\<close>

definition slice :: "pystr \<Rightarrow> nat \<Rightarrow> nat \<Rightarrow> pystr" where
  "slice s i j = take (j - i) (drop i s)"

text \<open>
  \<open>\w\<close> in a \<open>str\<close> pattern: \<open>[a-zA-Z0-9_]\<close> in ASCII; beyond ASCII whatever
  the Unicode database of the running interpreter calls alphanumeric.  That table is
  not part of the repository and is a parameter \<open>W\<close> of the matcher.
\<close>

definition ascii_word :: "int \<Rightarrow> bool" where
  "ascii_word c \<longleftrightarrow> (97 \<le> c \<and> c \<le> 122) \<or> (65 \<le> c \<and> c \<le> 90) \<or> (48 \<le> c \<and> c \<le> 57) \<or> c = 95"

definition is_word :: "(int \<Rightarrow> bool) \<Rightarrow> int \<Rightarrow> bool" where
  "is_word W c \<longleftrightarrow> (if c < 128 then ascii_word c else W c)"

section \<open>The regular expressions of module \<open>re\<close> that the patterns use\<close>

text \<open>
  The parsed form of a pattern.  \<open>In\<close> is a character set given by its ranges (a
  single member \<open>c\<close> is the range \<open>(c, c)\<close>); \<open>Opt\<close>, \<open>Star\<close> and \<open>Plus\<close> are the greedy
  \<open>?\<close>, \<open>*\<close> and \<open>+\<close>; \<open>Group n\<close> is the \<open>n\<close>-th capturing group; \<open>AssertNot True\<close> is
  the negative look-behind \<open>(?<!...)\<close> and \<open>AssertNot False\<close> the negative look-ahead
  \<open>(?!...)\<close>.
\<close>

datatype regex =
    Empty
  | Lit int
  | In "(int \<times> int) list"
  | WordChar
  | Seq regex regex
  | Branch regex regex
  | Opt regex
  | Star regex
  | Plus regex
  | Group nat regex
  | AssertNot bool regex

text \<open>The width of a fixed-width pattern (a look-behind needs one).\<close>

fun width :: "regex \<Rightarrow> nat option" where
  "width Empty = Some 0"
| "width (Lit c) = Some 1"
| "width (In rs) = Some 1"
| "width WordChar = Some 1"
| "width (Seq a b) =
     (case width a of None \<Rightarrow> None
      | Some m \<Rightarrow> (case width b of None \<Rightarrow> None | Some n \<Rightarrow> Some (m + n)))"
| "width (Branch a b) =
     (case width a of None \<Rightarrow> None
      | Some m \<Rightarrow> (case width b of None \<Rightarrow> None | Some n \<Rightarrow> if m = n then Some m else None))"
| "width (Opt a) = None"
| "width (Star a) = None"
| "width (Plus a) = None"
| "width (Group n a) = width a"
| "width (AssertNot b a) = Some 0"

subsection \<open>\<open>re.compile\<close>: parsing a pattern\<close>

text \<open>
  The parser covers the syntax that the patterns of this module are written in:
  literals, sets \<open>[...]\<close> of members and ranges, \<open>\w\<close>, the greedy quantifiers
  \<open>?\<close>, \<open>*\<close>, \<open>+\<close>, alternation, capturing groups, \<open>(?:...)\<close>, \<open>(?<!...)\<close> and \<open>(?!...)\<close>.
  \<open>None\<close> is \<open>re.error\<close> (or a construct outside this syntax).
\<close>

text \<open>The members of a set, after the opening bracket, up to the closing one.\<close>

fun parse_set :: "pystr \<Rightarrow> (int \<times> int) list \<Rightarrow> ((int \<times> int) list \<times> pystr) option" where
  "parse_set [] acc = None"
| "parse_set (c # cs) acc =
     (if c = 93 then Some (acc, cs)
      else if c = 92 then None
      else (case cs of
              d # e # rest \<Rightarrow>
                if d = 45 then
                  (if e = 93 then Some (acc @ [(c, c), (45, 45)], rest)
                   else if e = 92 \<or> e < c then None
                   else parse_set rest (acc @ [(c, e)]))
                else parse_set cs (acc @ [(c, c)])
            | _ \<Rightarrow> parse_set cs (acc @ [(c, c)])))"

definition is_prefix :: "pystr \<Rightarrow> pystr \<Rightarrow> bool" where
  "is_prefix p s \<longleftrightarrow> take (length p) s = p"

text \<open>A quantifier after an item; a second quantifier character (lazy, possessive
  or repeated) is outside the syntax covered.\<close>

definition quantified :: "regex \<Rightarrow> pystr \<Rightarrow> nat \<Rightarrow> (regex \<times> pystr \<times> nat) option" where
  "quantified a s g =
     (case s of
        [] \<Rightarrow> Some (a, s, g)
      | q # s' \<Rightarrow>
          if q = 123 then None
          else if q = 63 \<or> q = 42 \<or> q = 43 then
            (if s' \<noteq> [] \<and> hd s' \<in> {63, 42, 43, 123} then None
             else Some (if q = 63 then Opt a else if q = 42 then Star a else Plus a, s', g))
          else Some (a, s, g))"

text \<open>
  Recursive descent; the first argument bounds the depth of the calls (\<open>re_compile\<close>
  starts it high enough for the whole pattern), the last one is the number of the
  next capturing group.
\<close>

fun parse_alt :: "nat \<Rightarrow> pystr \<Rightarrow> nat \<Rightarrow> (regex \<times> pystr \<times> nat) option"
  and parse_seq :: "nat \<Rightarrow> pystr \<Rightarrow> nat \<Rightarrow> (regex \<times> pystr \<times> nat) option"
  and parse_item :: "nat \<Rightarrow> pystr \<Rightarrow> nat \<Rightarrow> (regex \<times> pystr \<times> nat) option"
  and parse_group :: "nat \<Rightarrow> pystr \<Rightarrow> nat \<Rightarrow> (regex \<times> pystr \<times> nat) option"
where
  "parse_alt 0 s g = None"
| "parse_alt (Suc n) s g =
     (case parse_seq n s g of
        None \<Rightarrow> None
      | Some (a, s1, g1) \<Rightarrow>
          (case s1 of
             [] \<Rightarrow> Some (a, s1, g1)
           | c # s2 \<Rightarrow>
               if c = 124 then
                 (case parse_alt n s2 g1 of
                    None \<Rightarrow> None
                  | Some (b, s3, g2) \<Rightarrow> Some (Branch a b, s3, g2))
               else Some (a, s1, g1)))"
| "parse_seq 0 s g = None"
| "parse_seq (Suc n) s g =
     (case s of
        [] \<Rightarrow> Some (Empty, s, g)
      | c # cs \<Rightarrow>
          if c = 124 \<or> c = 41 then Some (Empty, s, g)
          else
            (case parse_item n s g of
               None \<Rightarrow> None
             | Some (a, s1, g1) \<Rightarrow>
                 (case parse_seq n s1 g1 of
                    None \<Rightarrow> None
                  | Some (b, s2, g2) \<Rightarrow> Some (Seq a b, s2, g2))))"
| "parse_item 0 s g = None"
| "parse_item (Suc n) s g =
     (case s of
        [] \<Rightarrow> None
      | c # cs \<Rightarrow>
          if c = 40 then
            (case parse_group n cs g of
               None \<Rightarrow> None
             | Some (a, s1, g1) \<Rightarrow> quantified a s1 g1)
          else if c = 91 then
            (if cs = [] \<or> hd cs = 94 \<or> hd cs = 93 then None
             else
               (case parse_set cs [] of
                  None \<Rightarrow> None
                | Some (rs, s1) \<Rightarrow> quantified (In rs) s1 g))
          else if c = 92 then
            (case cs of
               [] \<Rightarrow> None
             | d # s1 \<Rightarrow> if d = 119 then quantified WordChar s1 g else None)
          else if c \<in> {42, 43, 63, 123, 46, 94, 36} then None
          else quantified (Lit c) cs g)"
| "parse_group 0 s g = None"
| "parse_group (Suc n) s g =
     (if is_prefix [63, 58] s then
        (case parse_alt n (drop 2 s) g of
           Some (a, c # s1, g1) \<Rightarrow> if c = 41 then Some (a, s1, g1) else None
         | _ \<Rightarrow> None)
      else if is_prefix [63, 60, 33] s then
        (case parse_alt n (drop 3 s) g of
           Some (a, c # s1, g1) \<Rightarrow>
             if c = 41 \<and> width a \<noteq> None then Some (AssertNot True a, s1, g1) else None
         | _ \<Rightarrow> None)
      else if is_prefix [63, 33] s then
        (case parse_alt n (drop 2 s) g of
           Some (a, c # s1, g1) \<Rightarrow> if c = 41 then Some (AssertNot False a, s1, g1) else None
         | _ \<Rightarrow> None)
      else if is_prefix [63] s then None
      else
        (case parse_alt n s (Suc g) of
           Some (a, c # s1, g1) \<Rightarrow> if c = 41 then Some (Group g a, s1, g1) else None
         | _ \<Rightarrow> None))"

definition re_compile :: "pystr \<Rightarrow> regex option" where
  "re_compile p =
     (case parse_alt (3 * length p + 3) p 1 of
        Some (r, [], g) \<Rightarrow> Some r
      | _ \<Rightarrow> None)"

subsection \<open>Matching\<close>

text \<open>
  The state of the backtracking matcher: the position in the text and the spans of
  the capturing groups closed so far.
\<close>

record mstate =
  pos :: nat
  caps :: "nat \<Rightarrow> (nat \<times> nat) option"

definition in_set :: "(int \<times> int) list \<Rightarrow> int \<Rightarrow> bool" where
  "in_set rs c \<longleftrightarrow> list_ex (\<lambda>(lo, hi). lo \<le> c \<and> c \<le> hi) rs"

definition step :: "(int \<Rightarrow> bool) \<Rightarrow> pystr \<Rightarrow> mstate \<Rightarrow> mstate list" where
  "step P t s = (if pos s < length t \<and> P (t ! pos s) then [s\<lparr>pos := Suc (pos s)\<rparr>] else [])"

text \<open>
  Greedy repetition of a matcher \<open>f\<close>: one more round first, stopping second.  A
  round that consumes nothing is not repeated, so a text with \<open>n\<close> characters left
  allows at most \<open>n\<close> rounds: the first argument is that bound.
\<close>

primrec star :: "nat \<Rightarrow> (mstate \<Rightarrow> mstate list) \<Rightarrow> mstate \<Rightarrow> mstate list" where
  "star 0 f s = [s]"
| "star (Suc n) f s = concat (map (star n f) (filter (\<lambda>s'. pos s < pos s') (f s))) @ [s]"

text \<open>
  \<open>rmatch r W t s\<close>: every way in which \<open>r\<close> matches the text \<open>t\<close> from state \<open>s\<close>,
  in the order in which the backtracking engine tries them; the engine reports the
  first.
\<close>

primrec rmatch :: "regex \<Rightarrow> (int \<Rightarrow> bool) \<Rightarrow> pystr \<Rightarrow> mstate \<Rightarrow> mstate list" where
  "rmatch Empty W t s = [s]"
| "rmatch (Lit c) W t s = step (\<lambda>x. x = c) t s"
| "rmatch (In rs) W t s = step (in_set rs) t s"
| "rmatch WordChar W t s = step (is_word W) t s"
| "rmatch (Seq a b) W t s = concat (map (rmatch b W t) (rmatch a W t s))"
| "rmatch (Branch a b) W t s = rmatch a W t s @ rmatch b W t s"
| "rmatch (Opt a) W t s = rmatch a W t s @ [s]"
| "rmatch (Star a) W t s = star (length t - pos s) (rmatch a W t) s"
| "rmatch (Plus a) W t s =
     concat (map (\<lambda>s'. star (length t - pos s') (rmatch a W t) s') (rmatch a W t s))"
| "rmatch (Group n a) W t s =
     map (\<lambda>s'. s'\<lparr>caps := (caps s')(n \<mapsto> (pos s, pos s'))\<rparr>) (rmatch a W t s)"
| "rmatch (AssertNot behind a) W t s =
     (if behind then
        (case width a of
           None \<Rightarrow> []
         | Some w \<Rightarrow>
             if pos s < w then [s]
             else if rmatch a W t (s\<lparr>pos := pos s - w\<rparr>) = [] then [s] else [])
      else if rmatch a W t s = [] then [s] else [])"

lemma star_pos_mono: "(\<And>s s'. s' \<in> set (f s) \<Longrightarrow> pos s \<le> pos s') \<Longrightarrow> s' \<in> set (star n f s) \<Longrightarrow> pos s \<le> pos s'"
proof (induction n arbitrary: s)
  case 0
  then show ?case by simp
next
  case (Suc n)
  from Suc.prems(2) consider "s' = s" | u where "u \<in> set (f s)" "pos s < pos u" "s' \<in> set (star n f u)"
    by auto
  then show ?case
  proof cases
    case 1
    then show ?thesis by simp
  next
    case 2
    from Suc.IH [OF Suc.prems(1) 2(3)] 2(2) show ?thesis by simp
  qed
qed

lemma star_pos_le:
  assumes "\<And>s s'. s' \<in> set (f s) \<Longrightarrow> pos s \<le> length t \<Longrightarrow> pos s' \<le> length t"
  shows "s' \<in> set (star n f s) \<Longrightarrow> pos s \<le> length t \<Longrightarrow> pos s' \<le> length t"
proof (induction n arbitrary: s)
  case 0
  then show ?case by simp
next
  case (Suc n)
  from Suc.prems(1) consider "s' = s" | u where "u \<in> set (f s)" "s' \<in> set (star n f u)"
    by auto
  then show ?case
  proof cases
    case 1
    with Suc.prems(2) show ?thesis by simp
  next
    case 2
    from assms [OF 2(1) Suc.prems(2)] Suc.IH [OF 2(2)] show ?thesis by simp
  qed
qed

lemma step_pos: "s' \<in> set (step P t s) \<Longrightarrow> pos s' = Suc (pos s) \<and> pos s < length t \<and> caps s' = caps s"
  by (auto simp: step_def split: if_splits)

lemma rmatch_pos_mono: "s' \<in> set (rmatch r W t s) \<Longrightarrow> pos s \<le> pos s'"
proof (induction r arbitrary: s s')
  case (Seq a b)
  then obtain u where "u \<in> set (rmatch a W t s)" "s' \<in> set (rmatch b W t u)" by auto
  with Seq.IH show ?case by (meson le_trans)
next
  case (Star a)
  then show ?case using star_pos_mono [of "rmatch a W t"] by auto
next
  case (Plus a)
  then obtain u where u: "u \<in> set (rmatch a W t s)" "s' \<in> set (star (length t - pos u) (rmatch a W t) u)"
    by auto
  from star_pos_mono [of "rmatch a W t", OF _ u(2)] Plus.IH have "pos u \<le> pos s'" by blast
  with Plus.IH [OF u(1)] show ?case by simp
next
  case (AssertNot behind a)
  then show ?case by (auto split: if_splits option.splits)
qed (auto dest: step_pos)

lemma rmatch_pos_le: "s' \<in> set (rmatch r W t s) \<Longrightarrow> pos s \<le> length t \<Longrightarrow> pos s' \<le> length t"
proof (induction r arbitrary: s s')
  case (Seq a b)
  then obtain u where "u \<in> set (rmatch a W t s)" "s' \<in> set (rmatch b W t u)" by auto
  with Seq.IH Seq.prems(2) show ?case by blast
next
  case (Star a)
  then show ?case using star_pos_le [of "rmatch a W t" t] by auto
next
  case (Plus a)
  then obtain u where u: "u \<in> set (rmatch a W t s)" "s' \<in> set (star (length t - pos u) (rmatch a W t) u)"
    by auto
  from Plus.IH [OF u(1) Plus.prems(2)] have "pos u \<le> length t" .
  with star_pos_le [of "rmatch a W t" t, OF _ u(2)] Plus.IH show ?case by blast
next
  case (AssertNot behind a)
  then show ?case by (auto split: if_splits option.splits)
qed (auto dest: step_pos)

subsection \<open>\<open>finditer\<close>\<close>

text \<open>A match object: its span and the spans of its groups.\<close>

record rematch =
  m_start :: nat
  m_end :: nat
  m_caps :: "nat \<Rightarrow> (nat \<times> nat) option"

definition attempts :: "regex \<Rightarrow> (int \<Rightarrow> bool) \<Rightarrow> pystr \<Rightarrow> nat \<Rightarrow> bool \<Rightarrow> mstate list" where
  "attempts r W t p adv =
     filter (\<lambda>s. \<not> adv \<or> p < pos s) (rmatch r W t \<lparr>pos = p, caps = \<lambda>n. None\<rparr>)"

text \<open>
  The scan of \<open>finditer\<close> from position \<open>p\<close>: the leftmost start at which the pattern
  matches, the first way the engine finds there; the scan goes on at the end of the
  match.  After an empty match the next one must not be empty at the same place
  (\<open>adv\<close>).
\<close>

function scan :: "regex \<Rightarrow> (int \<Rightarrow> bool) \<Rightarrow> pystr \<Rightarrow> nat \<Rightarrow> bool \<Rightarrow> rematch list" where
  "scan r W t p adv =
     (if length t < p then []
      else
        (case attempts r W t p adv of
           [] \<Rightarrow> scan r W t (Suc p) False
         | s # ss \<Rightarrow>
             \<lparr>m_start = p, m_end = pos s, m_caps = caps s\<rparr> # scan r W t (pos s) (pos s = p)))"
  by pat_completeness auto

lemma attempts_hd_pos:
  assumes "attempts r W t p adv = s # ss"
  shows "p \<le> pos s" and "adv \<Longrightarrow> p < pos s" and "p \<le> length t \<Longrightarrow> pos s \<le> length t"
proof -
  from assms have mem: "s \<in> set (attempts r W t p adv)" by simp
  then have in_r: "s \<in> set (rmatch r W t \<lparr>pos = p, caps = \<lambda>n. None\<rparr>)"
    by (simp add: attempts_def)
  from rmatch_pos_mono [OF in_r] show "p \<le> pos s" by simp
  from mem show "adv \<Longrightarrow> p < pos s" by (simp add: attempts_def)
  from rmatch_pos_le [OF in_r] show "p \<le> length t \<Longrightarrow> pos s \<le> length t" by simp
qed

termination scan
proof (relation "measure (\<lambda>(r, W, t, p, adv). 2 * (Suc (length t) - p) + (if adv then 0 else 1))")
  show "wf (measure (\<lambda>(r, W, t, p, adv). 2 * (Suc (length t) - p) + (if adv then 0 else 1)))"
    by simp
next
  fix r :: regex and W :: "int \<Rightarrow> bool" and t :: pystr and p :: nat and adv :: bool
  assume "\<not> length t < p"
  then show "((r, W, t, Suc p, False), (r, W, t, p, adv))
      \<in> measure (\<lambda>(r, W, t, p, adv). 2 * (Suc (length t) - p) + (if adv then 0 else 1))"
    by auto
next
  fix r :: regex and W :: "int \<Rightarrow> bool" and t :: pystr and p :: nat and adv :: bool
    and s :: mstate and ss :: "mstate list"
  assume le: "\<not> length t < p" and att: "attempts r W t p adv = s # ss"
  from attempts_hd_pos [OF att] le
  have "p \<le> pos s" "adv \<Longrightarrow> p < pos s" "pos s \<le> length t" by auto
  then show "((r, W, t, pos s, pos s = p), (r, W, t, p, adv))
      \<in> measure (\<lambda>(r, W, t, p, adv). 2 * (Suc (length t) - p) + (if adv then 0 else 1))"
    by (cases "pos s = p") auto
qed

declare scan.simps [simp del]

definition finditer :: "regex \<Rightarrow> (int \<Rightarrow> bool) \<Rightarrow> pystr \<Rightarrow> rematch list" where
  "finditer r W t = scan r W t 0 False"

text \<open>\<open>match.group(0)\<close>, and \<open>match.group(n)\<close>, which is \<open>None\<close> for a group that took
  no part in the match.\<close>

definition group0 :: "pystr \<Rightarrow> rematch \<Rightarrow> pystr" where
  "group0 t m = slice t (m_start m) (m_end m)"

definition group :: "pystr \<Rightarrow> rematch \<Rightarrow> nat \<Rightarrow> pystr option" where
  "group t m n = (case m_caps m n of None \<Rightarrow> None | Some (a, b) \<Rightarrow> Some (slice t a b))"

section \<open>Module \<open>robotoff.insights.ocr.nutrient\<close>\<close>

text \<open>The exceptions that the code of the two modules can raise.\<close>

datatype error = KeyError string | ReError | AttributeError | ZeroDivisionError

definition EXTRACTOR_VERSION :: string where
  "EXTRACTOR_VERSION = ''1''"

text \<open>The letters of the mention table that are not ASCII, by code point.\<close>

definition e_acute :: pystr where "e_acute = [233]"
definition e_grave :: pystr where "e_grave = [232]"
definition a_umlaut :: pystr where "a_umlaut = [228]"
definition eszett :: pystr where "eszett = [223]"
definition i_acute :: pystr where "i_acute = [237]"
definition a_acute :: pystr where "a_acute = [225]"
definition u_acute :: pystr where "u_acute = [250]"

type_synonym NutrientMentionType = "pystr \<times> string list"

text \<open>
  A \<open>dict\<close> keeps its keys in insertion order: an association list, its keys distinct.
\<close>

definition NUTRIENT_MENTION :: "(string \<times> NutrientMentionType list) list" where
  "NUTRIENT_MENTION =
   [(''energy'',
     [(str ''['' @ e_acute @ str ''e]nergie'', [''fr'', ''de'']),
      (str ''valeurs? ['' @ e_acute @ str ''e]nerg['' @ e_acute @ str ''e]tiques?'', [''fr'']),
      (str ''energy'', [''en'']),
      (str ''calories'', [''fr'', ''en'']),
      (str ''energia'', [''es'']),
      (str ''valor energ['' @ e_acute @ str ''e]tico'', [''es''])]),
    (''saturated_fat'',
     [(str ''mati['' @ e_grave @ str ''e]res? grasses? satur['' @ e_acute @ str ''e]s?'', [''fr'']),
      (str ''acides? gras satur['' @ e_acute @ str ''e]s?'', [''fr'']),
      (str ''dont satur['' @ e_acute @ str ''e]s?'', [''fr'']),
      (str ''saturated fat'', [''en'']),
      (str ''of which saturates'', [''en'']),
      (str ''verzadigde vetzuren'', [''nl'']),
      (str ''waarvan verzadigde'', [''nl'']),
      (str ''ges'' @ a_umlaut @ str ''ttigte fetts'' @ a_umlaut @ str ''uren'', [''de'']),
      (str ''[a'' @ a_acute @ str '']cidos grasos saturados'', [''es''])]),
    (''trans_fat'',
     [(str ''mati['' @ e_grave @ str ''e]res? grasses? trans'', [''fr'']),
      (str ''trans fat'', [''en''])]),
    (''fat'',
     [(str ''mati['' @ e_grave @ str ''e]res? grasses?'', [''fr'']),
      (str ''graisses?'', [''fr'']),
      (str ''lipides?'', [''fr'']),
      (str ''total fat'', [''en'']),
      (str ''vetten'', [''nl'']),
      (str ''fett'', [''de'']),
      (str ''grasas'', [''es'']),
      (str ''l['' @ i_acute @ str ''i]pidos'', [''es''])]),
    (''sugar'',
     [(str ''sucres?'', [''fr'']),
      (str ''sugars?'', [''en'']),
      (str ''suikers?'', [''nl'']),
      (str ''zucker'', [''de'']),
      (str ''az['' @ u_acute @ str ''u]cares'', [''es''])]),
    (''carbohydrate'',
     [(str ''total carbohydrate'', [''en'']),
      (str ''glucids?'', [''fr'']),
      (str ''glucides?'', [''en'']),
      (str ''koolhydraten'', [''nl'']),
      (str ''koolhydraat'', [''nl'']),
      (str ''kohlenhydrate'', [''de'']),
      (str ''hidratos de carbono'', [''es''])]),
    (''protein'',
     [(str ''prot['' @ e_acute @ str ''e]ines?'', [''fr'']),
      (str ''protein'', [''en'']),
      (str ''eiwitten'', [''nl'']),
      (str ''eiwei'' @ eszett, [''de'']),
      (str ''prote['' @ i_acute @ str ''i]nas'', [''es''])]),
    (''salt'',
     [(str ''sel'', [''fr'']),
      (str ''salt'', [''en'']),
      (str ''zout'', [''nl'']),
      (str ''salz'', [''de'']),
      (str ''sal'', [''es''])]),
    (''fiber'',
     [(str ''fibres?'', [''en'', ''fr'']),
      (str ''fibers?'', [''en'']),
      (str ''fibres? alimentaires?'', [''fr'']),
      (str ''(?:voedings)?vezels?'', [''nl'']),
      (str ''ballaststoffe'', [''de'']),
      (str ''fibra(?: alimentaria)?'', [''es''])]),
    (''nutrition_values'',
     [(str ''informations? nutritionnelles?(?: moyennes?)?'', [''fr'']),
      (str ''valeurs? nutritionnelles?(?: moyennes?)?'', [''fr'']),
      (str ''analyse moyenne pour'', [''fr'']),
      (str ''valeurs? nutritives?'', [''fr'']),
      (str ''valeurs? moyennes?'', [''fr'']),
      (str ''nutrition facts?'', [''en'']),
      (str ''gemiddelde waarden per'', [''nl''])])]"

definition NUTRIENT_UNITS :: "(string \<times> pystr list) list" where
  "NUTRIENT_UNITS =
   [(''energy'', [str ''kj'', str ''kcal'']),
    (''saturated_fat'', [str ''g'']),
    (''trans_fat'', [str ''g'']),
    (''fat'', [str ''g'']),
    (''sugar'', [str ''g'']),
    (''carbohydrate'', [str ''g'']),
    (''protein'', [str ''g'']),
    (''salt'', [str ''g'']),
    (''fiber'', [str ''g''])]"

text \<open>
  The format string has two replacement fields and no other brace, so \<open>format\<close>
  splices the two joined strings in between its three literal pieces (code point 92
  is the backslash).
\<close>

definition generate_nutrient_regex :: "NutrientMentionType list \<Rightarrow> pystr list \<Rightarrow> regex option" where
  "generate_nutrient_regex nutrient_mentions units =
     (let nutrient_names = map fst nutrient_mentions;
          nutrient_names_str = join (str ''|'') nutrient_names;
          units_str = join (str ''|'') units
      in re_compile
           (str ''(?<!'' @ [92] @ str ''w)('' @ nutrient_names_str
              @ str '') ?(?:[:-] ?)?([0-9]+[,.]?[0-9]*) ?('' @ units_str
              @ str '')(?!'' @ [92] @ str ''w)''))"

definition generate_nutrient_mention_regex :: "NutrientMentionType list \<Rightarrow> regex option" where
  "generate_nutrient_mention_regex nutrient_mentions =
     (let nutrient_names = map fst nutrient_mentions;
          nutrient_names_str = join (str ''|'') nutrient_names
      in re_compile
           (str ''(?<!'' @ [92] @ str ''w)('' @ nutrient_names_str @ str '')(?!'' @ [92] @ str ''w)''))"

text \<open>
  Modelled from the spec: \<open>OCRField\<close> and \<open>OCRRegex\<close> are declared in
  \<open>robotoff.insights.ocr.dataclass\<close>, which is not among the sources.  A compiled
  matcher is the "compiled pattern plus metadata: target text field selector,
  case-normalization flag"; the one selector in use is the contiguous full text.
\<close>

datatype OCRField = full_text_contiguous

record OCRRegex =
  regex :: regex
  field :: OCRField
  lowercase :: bool

text \<open>
  The two tables are built when the module is imported.  A key of the unit table
  that the mention table lacks raises \<open>KeyError\<close> there, a pattern that does not
  compile raises \<open>re.error\<close>; either way the import fails and the module has no
  function to call.
\<close>

fun build_values_regex ::
  "(string \<times> NutrientMentionType list) list \<Rightarrow> (string \<times> pystr list) list
    \<Rightarrow> error + (string \<times> OCRRegex) list" where
  "build_values_regex M [] = Inr []"
| "build_values_regex M ((nutrient, units) # rest) =
     (case map_of M nutrient of
        None \<Rightarrow> Inl (KeyError nutrient)
      | Some mentions \<Rightarrow>
          (case generate_nutrient_regex mentions units of
             None \<Rightarrow> Inl ReError
           | Some r \<Rightarrow>
               (case build_values_regex M rest of
                  Inl e \<Rightarrow> Inl e
                | Inr tbl \<Rightarrow>
                    Inr ((nutrient, \<lparr>regex = r, field = full_text_contiguous, lowercase = True\<rparr>) # tbl))))"

fun build_mentions_regex ::
  "(string \<times> NutrientMentionType list) list \<Rightarrow> string list
    \<Rightarrow> error + (string \<times> OCRRegex) list" where
  "build_mentions_regex M [] = Inr []"
| "build_mentions_regex M (nutrient # rest) =
     (case map_of M nutrient of
        None \<Rightarrow> Inl (KeyError nutrient)
      | Some mentions \<Rightarrow>
          (case generate_nutrient_mention_regex mentions of
             None \<Rightarrow> Inl ReError
           | Some r \<Rightarrow>
               (case build_mentions_regex M rest of
                  Inl e \<Rightarrow> Inl e
                | Inr tbl \<Rightarrow>
                    Inr ((nutrient, \<lparr>regex = r, field = full_text_contiguous, lowercase = True\<rparr>) # tbl))))"

definition NUTRIENT_VALUES_REGEX :: "error + (string \<times> OCRRegex) list" where
  "NUTRIENT_VALUES_REGEX = build_values_regex NUTRIENT_MENTION NUTRIENT_UNITS"

definition NUTRIENT_MENTIONS_REGEX :: "error + (string \<times> OCRRegex) list" where
  "NUTRIENT_MENTIONS_REGEX = build_mentions_regex NUTRIENT_MENTION (map fst NUTRIENT_MENTION)"

text \<open>
  The import of the module, for any two tables in the place of \<open>NUTRIENT_MENTION\<close>
  and \<open>NUTRIENT_UNITS\<close>: the value matchers are built first, the mention matchers
  second, and the first exception ends the import.
\<close>

definition import_module ::
  "(string \<times> NutrientMentionType list) list \<Rightarrow> (string \<times> pystr list) list
    \<Rightarrow> error + ((string \<times> OCRRegex) list \<times> (string \<times> OCRRegex) list)" where
  "import_module M catalog =
     (case build_values_regex M catalog of
        Inl e \<Rightarrow> Inl e
      | Inr values_regex \<Rightarrow>
          (case build_mentions_regex M (map fst M) of
             Inl e \<Rightarrow> Inl e
           | Inr mentions_regex \<Rightarrow> Inr (values_regex, mentions_regex)))"

subsection \<open>The two extractors\<close>

text \<open>\<open>d.setdefault(k, v)\<close> and \<open>d[k].append(x)\<close> on an insertion-ordered \<open>dict\<close> of lists.\<close>

definition setdefault :: "'k \<Rightarrow> 'v \<Rightarrow> ('k \<times> 'v) list \<Rightarrow> ('k \<times> 'v) list" where
  "setdefault k v d = (if map_of d k = None then d @ [(k, v)] else d)"

definition append_at :: "'k \<Rightarrow> 'v \<Rightarrow> ('k \<times> 'v list) list \<Rightarrow> ('k \<times> 'v list) list" where
  "append_at k x d = map (\<lambda>(k', xs). if k' = k then (k', xs @ [x]) else (k', xs)) d"

text \<open>
  The records that the extractors emit: a value match
  \<open>{"raw", "nutrient", "value", "unit"}\<close>, a mention match \<open>{"raw", "span"}\<close>, and the
  envelope \<open>{key: mapping, "version": ...}\<close> whose \<open>key\<close> is \<open>"nutrients"\<close> or
  \<open>"mentions"\<close>.
\<close>

record ValueMatch =
  vm_raw :: pystr
  vm_nutrient :: string
  vm_value :: pystr
  vm_unit :: "pystr option"

record MentionMatch =
  mm_raw :: pystr
  mm_span :: "nat list"

record 'a envelope =
  payload_key :: string
  payload :: "(string \<times> 'a list) list"
  version :: string

text \<open>
  The inner loop of \<open>find_nutrient_values\<close> over the matches of one kind.
  \<open>match.group(2)\<close> of a group that took no part is \<open>None\<close>, and \<open>None.replace\<close>
  raises \<open>AttributeError\<close>.
\<close>

fun values_of_matches ::
  "string \<Rightarrow> pystr \<Rightarrow> rematch list \<Rightarrow> (string \<times> ValueMatch list) list
    \<Rightarrow> error + (string \<times> ValueMatch list) list" where
  "values_of_matches regex_code text [] nutrients = Inr nutrients"
| "values_of_matches regex_code text (m # ms) nutrients =
     (case group text m 2 of
        None \<Rightarrow> Inl AttributeError
      | Some g2 \<Rightarrow>
          (let value = replace 44 46 g2;
               unit = group text m 3
           in values_of_matches regex_code text ms
                (append_at regex_code
                   \<lparr>vm_raw = group0 text m, vm_nutrient = regex_code,
                    vm_value = value, vm_unit = unit\<rparr>
                   (setdefault regex_code [] nutrients))))"

text \<open>
  The loop over the table.  \<open>get_text\<close> belongs to \<open>robotoff.insights.ocr.dataclass\<close>
  and is a parameter here: it gives, for the content and a compiled matcher, the
  text to search, or nothing.
\<close>

fun values_loop ::
  "(int \<Rightarrow> bool) \<Rightarrow> ('c \<Rightarrow> OCRRegex \<Rightarrow> pystr option) \<Rightarrow> 'c \<Rightarrow> (string \<times> OCRRegex) list
    \<Rightarrow> (string \<times> ValueMatch list) list \<Rightarrow> error + (string \<times> ValueMatch list) list" where
  "values_loop W get_text content [] nutrients = Inr nutrients"
| "values_loop W get_text content ((regex_code, ocr_regex) # rest) nutrients =
     (case get_text content ocr_regex of
        None \<Rightarrow> values_loop W get_text content rest nutrients
      | Some text \<Rightarrow>
          if text = [] then values_loop W get_text content rest nutrients
          else
            (case values_of_matches regex_code text (finditer (regex ocr_regex) W text) nutrients of
               Inl e \<Rightarrow> Inl e
             | Inr nutrients' \<Rightarrow> values_loop W get_text content rest nutrients'))"

text \<open>
  The two functions belong to the imported module and read its tables.  A module
  whose import raised has no function to call: a call on it is the error of the
  import.
\<close>

definition find_nutrient_values_in ::
  "error + ((string \<times> OCRRegex) list \<times> (string \<times> OCRRegex) list)
    \<Rightarrow> (int \<Rightarrow> bool) \<Rightarrow> ('c \<Rightarrow> OCRRegex \<Rightarrow> pystr option) \<Rightarrow> 'c
    \<Rightarrow> error + ValueMatch envelope list" where
  "find_nutrient_values_in imported W get_text content =
     (case imported of
        Inl e \<Rightarrow> Inl e
      | Inr (values_regex, mentions_regex) \<Rightarrow>
          (case values_loop W get_text content values_regex [] of
             Inl e \<Rightarrow> Inl e
           | Inr nutrients \<Rightarrow>
               if nutrients = [] then Inr []
               else Inr [\<lparr>payload_key = ''nutrients'', payload = nutrients,
                          version = EXTRACTOR_VERSION\<rparr>]))"

definition find_nutrient_values ::
  "(int \<Rightarrow> bool) \<Rightarrow> ('c \<Rightarrow> OCRRegex \<Rightarrow> pystr option) \<Rightarrow> 'c \<Rightarrow> error + ValueMatch envelope list" where
  "find_nutrient_values = find_nutrient_values_in (import_module NUTRIENT_MENTION NUTRIENT_UNITS)"

fun mentions_of_matches ::
  "string \<Rightarrow> pystr \<Rightarrow> rematch list \<Rightarrow> (string \<times> MentionMatch list) list
    \<Rightarrow> (string \<times> MentionMatch list) list" where
  "mentions_of_matches regex_code text [] nutrients = nutrients"
| "mentions_of_matches regex_code text (m # ms) nutrients =
     mentions_of_matches regex_code text ms
       (append_at regex_code \<lparr>mm_raw = group0 text m, mm_span = [m_start m, m_end m]\<rparr>
          (setdefault regex_code [] nutrients))"

fun mentions_loop ::
  "(int \<Rightarrow> bool) \<Rightarrow> ('c \<Rightarrow> OCRRegex \<Rightarrow> pystr option) \<Rightarrow> 'c \<Rightarrow> (string \<times> OCRRegex) list
    \<Rightarrow> (string \<times> MentionMatch list) list \<Rightarrow> (string \<times> MentionMatch list) list" where
  "mentions_loop W get_text content [] nutrients = nutrients"
| "mentions_loop W get_text content ((regex_code, ocr_regex) # rest) nutrients =
     (case get_text content ocr_regex of
        None \<Rightarrow> mentions_loop W get_text content rest nutrients
      | Some text \<Rightarrow>
          if text = [] then mentions_loop W get_text content rest nutrients
          else
            mentions_loop W get_text content rest
              (mentions_of_matches regex_code text (finditer (regex ocr_regex) W text) nutrients))"

definition find_nutrient_mentions_in ::
  "error + ((string \<times> OCRRegex) list \<times> (string \<times> OCRRegex) list)
    \<Rightarrow> (int \<Rightarrow> bool) \<Rightarrow> ('c \<Rightarrow> OCRRegex \<Rightarrow> pystr option) \<Rightarrow> 'c
    \<Rightarrow> error + MentionMatch envelope list" where
  "find_nutrient_mentions_in imported W get_text content =
     (case imported of
        Inl e \<Rightarrow> Inl e
      | Inr (values_regex, mentions_regex) \<Rightarrow>
          (let nutrients = mentions_loop W get_text content mentions_regex []
           in if nutrients = [] then Inr []
              else Inr [\<lparr>payload_key = ''mentions'', payload = nutrients,
                         version = EXTRACTOR_VERSION\<rparr>]))"

definition find_nutrient_mentions ::
  "(int \<Rightarrow> bool) \<Rightarrow> ('c \<Rightarrow> OCRRegex \<Rightarrow> pystr option) \<Rightarrow> 'c \<Rightarrow> error + MentionMatch envelope list" where
  "find_nutrient_mentions = find_nutrient_mentions_in (import_module NUTRIENT_MENTION NUTRIENT_UNITS)"

section \<open>Module \<open>robotoff.models\<close>: \<open>batch_insert\<close>\<close>

text \<open>
  \<open>model_cls.insert_many(inserts).execute()\<close> writes to the database; the model
  class is the list of the batches submitted so far, and \<open>batch_insert\<close> returns it
  extended.  \<open>rows % batch_size\<close> raises \<open>ZeroDivisionError\<close> when \<open>batch_size\<close> is
  \<open>0\<close>; for other sizes Python's \<open>%\<close> on integers is \<open>mod\<close>.
\<close>

fun batch_loop ::
  "int \<Rightarrow> 'a list \<Rightarrow> int \<Rightarrow> 'a list \<Rightarrow> 'a list list \<Rightarrow> error + (int \<times> 'a list \<times> 'a list list)" where
  "batch_loop batch_size [] rows inserts model_cls = Inr (rows, inserts, model_cls)"
| "batch_loop batch_size (item # data) rows inserts model_cls =
     (if batch_size = 0 then Inl ZeroDivisionError
      else if (rows + 1) mod batch_size = 0
      then batch_loop batch_size data (rows + 1) [] (model_cls @ [inserts @ [item]])
      else batch_loop batch_size data (rows + 1) (inserts @ [item]) model_cls)"

definition batch_insert :: "'a list list \<Rightarrow> 'a list \<Rightarrow> int \<Rightarrow> error + (int \<times> 'a list list)" where
  "batch_insert model_cls data batch_size =
     (case batch_loop batch_size data 0 [] model_cls of
        Inl e \<Rightarrow> Inl e
      | Inr (rows, inserts, model_cls') \<Rightarrow>
          Inr (rows, if inserts \<noteq> [] then model_cls' @ [inserts] else model_cls'))"

section \<open>The compiled matchers\<close>

text \<open>The numbers of the capturing groups of a pattern.\<close>

fun groups :: "regex \<Rightarrow> nat list" where
  "groups (Seq a b) = groups a @ groups b"
| "groups (Branch a b) = groups a @ groups b"
| "groups (Opt a) = groups a"
| "groups (Star a) = groups a"
| "groups (Plus a) = groups a"
| "groups (Group n a) = n # groups a"
| "groups (AssertNot b a) = groups a"
| "groups r = []"

text \<open>
  The form in which \<open>re_compile\<close> returns the two patterns: \<open>value_re U T\<close> for
  the pattern of \<open>generate_nutrient_regex\<close> and \<open>mention_re U\<close> for the pattern of
  \<open>generate_nutrient_mention_regex\<close>, where \<open>U\<close> is what stands in the first pair of
  parentheses and \<open>T\<close> what stands in the last.
\<close>

definition not_behind_word :: regex where
  "not_behind_word = AssertNot True (Seq WordChar Empty)"

definition not_ahead_word :: regex where
  "not_ahead_word = AssertNot False (Seq WordChar Empty)"

definition digit_set :: regex where
  "digit_set = In [(48, 57)]"

definition number_re :: regex where
  "number_re = Seq (Plus digit_set) (Seq (Opt (In [(44, 44), (46, 46)])) (Seq (Star digit_set) Empty))"

definition value_tail :: "regex \<Rightarrow> regex" where
  "value_tail T =
     Seq (Opt (Lit 32))
       (Seq (Opt (Seq (In [(58, 58), (45, 45)]) (Seq (Opt (Lit 32)) Empty)))
         (Seq (Group 2 number_re)
           (Seq (Opt (Lit 32))
             (Seq (Group 3 T)
               (Seq not_ahead_word Empty)))))"

definition value_re :: "regex \<Rightarrow> regex \<Rightarrow> regex" where
  "value_re U T = Seq not_behind_word (Seq (Group 1 U) (value_tail T))"

definition mention_re :: "regex \<Rightarrow> regex" where
  "mention_re U = Seq not_behind_word (Seq (Group 1 U) (Seq not_ahead_word Empty))"

text \<open>The union of patterns, in the order written, and the pattern of a literal token.\<close>

fun branches :: "regex list \<Rightarrow> regex" where
  "branches [] = Empty"
| "branches [r] = r"
| "branches (r # r' # rs) = Branch r (branches (r' # rs))"

definition literal :: "pystr \<Rightarrow> regex" where
  "literal u = foldr (\<lambda>c r. Seq (Lit c) r) u Empty"

text \<open>Every mention fragment of a kind compiled on its own.\<close>

fun compile_fragments :: "NutrientMentionType list \<Rightarrow> regex list option" where
  "compile_fragments [] = Some []"
| "compile_fragments (m # ms) =
     (case re_compile (fst m) of
        None \<Rightarrow> None
      | Some r \<Rightarrow> (case compile_fragments ms of None \<Rightarrow> None | Some rs \<Rightarrow> Some (r # rs)))"

definition fragments_of :: "string \<Rightarrow> regex list option" where
  "fragments_of k = (case map_of NUTRIENT_MENTION k of None \<Rightarrow> None | Some ms \<Rightarrow> compile_fragments ms)"

definition value_entry_ok :: "string \<times> OCRRegex \<Rightarrow> string \<times> pystr list \<Rightarrow> bool" where
  "value_entry_ok e u =
     (case fragments_of (fst u) of
        None \<Rightarrow> False
      | Some Us \<Rightarrow>
          fst e = fst u
          \<and> regex (snd e) = value_re (branches Us) (branches (map literal (snd u)))
          \<and> list_all (\<lambda>U. groups U = []) Us)"

definition mention_entry_ok :: "string \<times> OCRRegex \<Rightarrow> string \<Rightarrow> bool" where
  "mention_entry_ok e k =
     (case fragments_of k of
        None \<Rightarrow> False
      | Some Us \<Rightarrow>
          fst e = k
          \<and> regex (snd e) = mention_re (branches Us)
          \<and> list_all (\<lambda>U. groups U = []) Us)"

section \<open>Facts about the matcher\<close>

lemma in_rmatch_Seq:
  "s' \<in> set (rmatch (Seq a b) W t s) \<longleftrightarrow> (\<exists>u \<in> set (rmatch a W t s). s' \<in> set (rmatch b W t u))"
  by auto

lemma star_invariant:
  assumes step: "\<And>s s'. s' \<in> set (f s) \<Longrightarrow> R s s'"
    and refl: "\<And>s. R s s"
    and trans: "\<And>a b c. R a b \<Longrightarrow> R b c \<Longrightarrow> R a c"
  shows "s' \<in> set (star n f s) \<Longrightarrow> R s s'"
proof (induction n arbitrary: s)
  case 0
  then show ?case by (simp add: refl)
next
  case (Suc n)
  from Suc.prems consider "s' = s" | u where "u \<in> set (f s)" "s' \<in> set (star n f u)"
    by auto
  then show ?case
  proof cases
    case 1
    then show ?thesis by (simp add: refl)
  next
    case 2
    from trans [OF step [OF 2(1)] Suc.IH [OF 2(2)]] show ?thesis .
  qed
qed

lemma rmatch_caps_other:
  "s' \<in> set (rmatch r W t s) \<Longrightarrow> n \<notin> set (groups r) \<Longrightarrow> caps s' n = caps s n"
proof (induction r arbitrary: s s')
  case (Seq a b)
  then obtain u where "u \<in> set (rmatch a W t s)" "s' \<in> set (rmatch b W t u)" by auto
  with Seq.IH Seq.prems(2) show ?case by fastforce
next
  case (Star a)
  have "s' \<in> set (star (length t - pos s) (rmatch a W t) s)" using Star.prems(1) by simp
  then show ?case
    by (rule star_invariant [where R = "\<lambda>x y. caps y n = caps x n", rotated 3])
       (use Star in auto)
next
  case (Plus a)
  then obtain u where u: "u \<in> set (rmatch a W t s)" "s' \<in> set (star (length t - pos u) (rmatch a W t) u)"
    by auto
  have "caps s' n = caps u n"
    using u(2)
    by (rule star_invariant [where R = "\<lambda>x y. caps y n = caps x n", rotated 3])
       (use Plus in auto)
  with Plus.IH [OF u(1)] Plus.prems(2) show ?case by simp
next
  case (AssertNot behind a)
  then show ?case by (auto split: if_splits option.splits)
qed (auto dest: step_pos)

text \<open>The two anchors.\<close>

lemma rmatch_not_behind_word:
  assumes "s' \<in> set (rmatch not_behind_word W t s)"
  shows "s' = s" and "pos s = 0 \<or> \<not> (pos s - 1 < length t \<and> is_word W (t ! (pos s - 1)))"
  using assms by (auto simp: not_behind_word_def step_def split: if_splits)

lemma rmatch_not_ahead_word:
  assumes "s' \<in> set (rmatch not_ahead_word W t s)"
  shows "s' = s" and "\<not> (pos s < length t \<and> is_word W (t ! pos s))"
  using assms by (auto simp: not_ahead_word_def step_def split: if_splits)

text \<open>Every match that the scan reports is a way in which the pattern matches at its start.\<close>

lemma scan_sound:
  "m \<in> set (scan r W t p adv) \<Longrightarrow>
     \<exists>s'. s' \<in> set (rmatch r W t \<lparr>pos = m_start m, caps = \<lambda>n. None\<rparr>)
        \<and> p \<le> m_start m \<and> m_start m \<le> length t \<and> m_end m = pos s' \<and> m_caps m = caps s'"
proof (induction r W t p adv rule: scan.induct)
  case (1 r W t p adv)
  show ?case
  proof (cases "length t < p")
    case True
    with "1.prems" show ?thesis by (simp add: scan.simps [of r W t p adv])
  next
    case le: False
    show ?thesis
    proof (cases "attempts r W t p adv")
      case Nil
      with le "1.prems" have "m \<in> set (scan r W t (Suc p) False)"
        by (simp add: scan.simps [of r W t p adv])
      from "1.IH"(1) [OF le Nil this] show ?thesis by auto
    next
      case (Cons s ss)
      with le "1.prems" consider
        "m = \<lparr>m_start = p, m_end = pos s, m_caps = caps s\<rparr>"
        | "m \<in> set (scan r W t (pos s) (pos s = p))"
        by (auto simp: scan.simps [of r W t p adv])
      then show ?thesis
      proof cases
        case 1
        have "s \<in> set (attempts r W t p adv)" using Cons by simp
        then have "s \<in> set (rmatch r W t \<lparr>pos = p, caps = \<lambda>n. None\<rparr>)"
          by (simp add: attempts_def)
        with 1 le show ?thesis by auto
      next
        case 2
        from "1.IH"(2) [OF le Cons 2] attempts_hd_pos(1) [OF Cons] show ?thesis by auto
      qed
    qed
  qed
qed

lemma finditer_sound:
  assumes "m \<in> set (finditer r W t)"
  obtains s' where "s' \<in> set (rmatch r W t \<lparr>pos = m_start m, caps = \<lambda>n. None\<rparr>)"
    and "m_start m \<le> length t" and "m_end m = pos s'" and "m_caps m = caps s'"
  using scan_sound [of m r W t 0 False] assms unfolding finditer_def by blast

lemma finditer_span:
  assumes "m \<in> set (finditer r W t)"
  shows "m_start m \<le> m_end m" and "m_end m \<le> length t"
proof -
  from assms obtain s' where s': "s' \<in> set (rmatch r W t \<lparr>pos = m_start m, caps = \<lambda>n. None\<rparr>)"
    and le: "m_start m \<le> length t" and e: "m_end m = pos s'"
    by (rule finditer_sound)
  from rmatch_pos_mono [OF s'] e show "m_start m \<le> m_end m" by simp
  from rmatch_pos_le [OF s'] le e show "m_end m \<le> length t" by simp
qed

subsection \<open>Numbers\<close>

text \<open>
  The strings of the two number patterns, said without the matcher:
  \<open>number_string\<close> is \<open>digits[,.]?digits*\<close>, the form of the captured number, and
  \<open>decimal_string\<close> is \<open>^[0-9]+\.?[0-9]*$\<close>, the form of a value.
\<close>

definition is_digit :: "int \<Rightarrow> bool" where
  "is_digit c \<longleftrightarrow> 48 \<le> c \<and> c \<le> 57"

definition number_string :: "pystr \<Rightarrow> bool" where
  "number_string v \<longleftrightarrow>
     (let a = takeWhile is_digit v; r = dropWhile is_digit v
      in a \<noteq> [] \<and> (r = [] \<or> ((hd r = 44 \<or> hd r = 46) \<and> list_all is_digit (tl r))))"

definition decimal_string :: "pystr \<Rightarrow> bool" where
  "decimal_string v \<longleftrightarrow>
     (let a = takeWhile is_digit v; r = dropWhile is_digit v
      in a \<noteq> [] \<and> (r = [] \<or> (hd r = 46 \<and> list_all is_digit (tl r))))"

lemma number_string_parts:
  assumes a: "list_all is_digit a" "a \<noteq> []" and b: "list_all is_digit b"
    and sep: "sep = [] \<or> sep = [44] \<or> sep = [46]"
  shows "number_string (a @ sep @ b)" and "decimal_string (replace 44 46 (a @ sep @ b))"
proof -
  have da: "\<And>x. x \<in> set a \<Longrightarrow> is_digit x" and db: "\<And>x. x \<in> set b \<Longrightarrow> is_digit x"
    using a b by (auto simp: list_all_iff)
  have "x \<noteq> 44" if "x \<in> set a \<or> x \<in> set b" for x
    using that da [of x] db [of x] by (auto simp: is_digit_def)
  then have ra: "replace 44 46 a = a" and rb: "replace 44 46 b = b"
    by (auto simp: replace_def intro!: map_idI)
  have all: "takeWhile is_digit (a @ b) = a @ b" "dropWhile is_digit (a @ b) = []"
    using da db by auto
  have cut: "takeWhile is_digit (a @ c # b) = a" "dropWhile is_digit (a @ c # b) = c # b"
    if "\<not> is_digit c" for c
    using da that by (simp_all add: takeWhile_append2 dropWhile_append2)
  have n44: "\<not> is_digit 44" and n46: "\<not> is_digit 46" by (simp_all add: is_digit_def)
  from sep consider "sep = []" | "sep = [44]" | "sep = [46]" by blast
  then show "number_string (a @ sep @ b)"
    using all cut [OF n44] cut [OF n46] a b by cases (simp_all add: number_string_def)
  have r44: "replace 44 46 (a @ [44] @ b) = a @ 46 # b"
    and r46: "replace 44 46 (a @ [46] @ b) = a @ 46 # b"
    and r0: "replace 44 46 (a @ [] @ b) = a @ b"
    using ra rb by (simp_all add: replace_def)
  from sep consider "sep = []" | "sep = [44]" | "sep = [46]" by blast
  then show "decimal_string (replace 44 46 (a @ sep @ b))"
    using all cut [OF n46] a b r44 r46 r0 by cases (simp_all add: decimal_string_def)
qed

subsection \<open>Slices\<close>

lemma slice_split: "i \<le> j \<Longrightarrow> j \<le> k \<Longrightarrow> slice t i k = slice t i j @ slice t j k"
proof -
  assume le: "i \<le> j" "j \<le> k"
  then have "k - i = (j - i) + (k - j)" by simp
  then have "take (k - i) (drop i t) = take (j - i) (drop i t) @ take (k - j) (drop (j - i) (drop i t))"
    by (simp only: take_add)
  with le show ?thesis by (simp add: slice_def)
qed

lemma slice_empty: "slice t i i = []"
  by (simp add: slice_def)

lemma slice_single: "i < length t \<Longrightarrow> slice t i (Suc i) = [t ! i]"
  by (simp add: slice_def take_Suc_conv_app_nth hd_drop_conv_nth take_Suc)

lemma slice_all:
  assumes "\<And>k. i \<le> k \<Longrightarrow> k < j \<Longrightarrow> k < length t \<and> P (t ! k)"
  shows "list_all P (slice t i j)"
proof -
  have "P x" if "x \<in> set (slice t i j)" for x
  proof -
    from that obtain n where n: "n < length (slice t i j)" "x = slice t i j ! n"
      by (auto simp: in_set_conv_nth)
    then have "n < j - i" "i + n < length t" by (auto simp: slice_def)
    with n have "x = t ! (i + n)" by (simp add: slice_def)
    moreover have "P (t ! (i + n))" using assms [of "i + n"] \<open>n < j - i\<close> by simp
    ultimately show ?thesis by simp
  qed
  then show ?thesis by (simp add: list_all_iff)
qed

subsection \<open>What the compiled matchers match\<close>

lemma in_step:
  "s' \<in> set (step P t s) \<longleftrightarrow> pos s < length t \<and> P (t ! pos s) \<and> s' = s\<lparr>pos := Suc (pos s)\<rparr>"
  by (auto simp: step_def)

lemma star_step_run:
  assumes "s' \<in> set (star n (step P t) s)"
  shows "pos s \<le> pos s' \<and> caps s' = caps s
       \<and> (\<forall>k. pos s \<le> k \<and> k < pos s' \<longrightarrow> k < length t \<and> P (t ! k))"
  using assms
proof (rule star_invariant [where
      R = "\<lambda>x y. pos x \<le> pos y \<and> caps y = caps x
            \<and> (\<forall>k. pos x \<le> k \<and> k < pos y \<longrightarrow> k < length t \<and> P (t ! k))", rotated 3])
  fix a b assume "b \<in> set (step P t a)"
  then have "pos a < length t" "P (t ! pos a)" "b = a\<lparr>pos := Suc (pos a)\<rparr>"
    by (simp_all add: in_step)
  then show "pos a \<le> pos b \<and> caps b = caps a
       \<and> (\<forall>k. pos a \<le> k \<and> k < pos b \<longrightarrow> k < length t \<and> P (t ! k))"
    by (auto simp: less_Suc_eq)
next
  fix a :: mstate
  show "pos a \<le> pos a \<and> caps a = caps a
       \<and> (\<forall>k. pos a \<le> k \<and> k < pos a \<longrightarrow> k < length t \<and> P (t ! k))"
    by auto
next
  fix a b c :: mstate
  assume ab: "pos a \<le> pos b \<and> caps b = caps a
       \<and> (\<forall>k. pos a \<le> k \<and> k < pos b \<longrightarrow> k < length t \<and> P (t ! k))"
    and bc: "pos b \<le> pos c \<and> caps c = caps b
       \<and> (\<forall>k. pos b \<le> k \<and> k < pos c \<longrightarrow> k < length t \<and> P (t ! k))"
  show "pos a \<le> pos c \<and> caps c = caps a
       \<and> (\<forall>k. pos a \<le> k \<and> k < pos c \<longrightarrow> k < length t \<and> P (t ! k))"
  proof (intro conjI allI impI)
    show "pos a \<le> pos c" using ab bc by simp
    show "caps c = caps a" using ab bc by simp
    fix k assume k: "pos a \<le> k \<and> k < pos c"
    show "k < length t" using ab bc k by (cases "k < pos b") auto
    show "P (t ! k)" using ab bc k by (cases "k < pos b") auto
  qed
qed

lemma rmatch_In_fun: "rmatch (In rs) W t = step (in_set rs) t"
  by (rule ext) simp

lemma in_set_digit: "in_set [(48, 57)] c \<longleftrightarrow> is_digit c"
  by (simp add: in_set_def is_digit_def)

lemma in_set_comma_dot: "in_set [(44, 44), (46, 46)] c \<longleftrightarrow> c = 44 \<or> c = 46"
  by (auto simp: in_set_def)

lemma rmatch_number_re:
  assumes "u \<in> set (rmatch number_re W t s)"
  shows "caps u = caps s" and "pos s \<le> pos u"
    and "number_string (slice t (pos s) (pos u))"
    and "decimal_string (replace 44 46 (slice t (pos s) (pos u)))"
proof -
  let ?D = "step (in_set [(48, 57)]) t"
  from assms obtain u1 u2 where
    u1: "u1 \<in> set (rmatch (Plus digit_set) W t s)"
    and u2: "u2 \<in> set (rmatch (Opt (In [(44, 44), (46, 46)])) W t u1)"
    and u3: "u \<in> set (rmatch (Star digit_set) W t u2)"
    by (auto simp: number_re_def)
  from u1 obtain v where v: "v \<in> set (?D s)" and v1: "u1 \<in> set (star (length t - pos v) ?D v)"
    by (auto simp: digit_set_def rmatch_In_fun)
  from v have s0: "pos s < length t" "is_digit (t ! pos s)" "pos v = Suc (pos s)" "caps v = caps s"
    by (simp_all add: in_step in_set_digit)
  from star_step_run [OF v1] have r1: "pos v \<le> pos u1" "caps u1 = caps v"
    "\<And>k. pos v \<le> k \<Longrightarrow> k < pos u1 \<Longrightarrow> k < length t \<and> is_digit (t ! k)"
    by (simp_all add: in_set_digit)
  have d1: "list_all is_digit (slice t (pos s) (pos u1))"
  proof (rule slice_all)
    fix k assume "pos s \<le> k" "k < pos u1"
    then show "k < length t \<and> is_digit (t ! k)"
      using s0 r1(3) [of k] by (cases "k = pos s") auto
  qed
  have ne1: "slice t (pos s) (pos u1) \<noteq> []"
    using s0 r1(1) by (auto simp: slice_def)
  from u2 have sep: "(u2 = u1 \<and> slice t (pos u1) (pos u2) = [])
      \<or> (pos u1 < length t \<and> pos u2 = Suc (pos u1) \<and> caps u2 = caps u1
          \<and> (slice t (pos u1) (pos u2) = [44] \<or> slice t (pos u1) (pos u2) = [46]))"
    by (auto simp: in_step in_set_comma_dot slice_single slice_empty)
  from u3 have u3': "u \<in> set (star (length t - pos u2) ?D u2)"
    by (simp add: digit_set_def rmatch_In_fun)
  from star_step_run [OF u3'] have r3: "pos u2 \<le> pos u" "caps u = caps u2"
    "\<And>k. pos u2 \<le> k \<Longrightarrow> k < pos u \<Longrightarrow> k < length t \<and> is_digit (t ! k)"
    by (simp_all add: in_set_digit)
  have d3: "list_all is_digit (slice t (pos u2) (pos u))"
    by (rule slice_all) (use r3(3) in auto)
  from sep s0 r1 r3 show "caps u = caps s" by auto
  have le12: "pos u1 \<le> pos u2" using sep by auto
  from s0 r1 le12 r3 show "pos s \<le> pos u" by simp
  have split: "slice t (pos s) (pos u)
      = slice t (pos s) (pos u1) @ slice t (pos u1) (pos u2) @ slice t (pos u2) (pos u)"
    using slice_split [of "pos s" "pos u1" "pos u" t] slice_split [of "pos u1" "pos u2" "pos u" t]
      s0 r1(1) le12 r3(1) by simp
  have sep': "slice t (pos u1) (pos u2) = [] \<or> slice t (pos u1) (pos u2) = [44]
      \<or> slice t (pos u1) (pos u2) = [46]"
    using sep by auto
  from number_string_parts [OF d1 ne1 d3 sep'] split
  show "number_string (slice t (pos s) (pos u))"
    and "decimal_string (replace 44 46 (slice t (pos s) (pos u)))"
    by simp_all
qed

lemma value_re_match:
  assumes "s' \<in> set (rmatch (value_re U T) W t s)" and "2 \<notin> set (groups T)"
  shows "pos s = 0 \<or> \<not> (pos s - 1 < length t \<and> is_word W (t ! (pos s - 1)))"
    and "\<not> (pos s' < length t \<and> is_word W (t ! pos s'))"
    and "\<exists>a b. caps s' 2 = Some (a, b) \<and> number_string (slice t a b)
           \<and> decimal_string (replace 44 46 (slice t a b))"
    and "caps s' 3 \<noteq> None"
proof -
  from assms(1) have "\<exists>u1 \<in> set (rmatch not_behind_word W t s).
      \<exists>u2 \<in> set (rmatch (Group 1 U) W t u1). s' \<in> set (rmatch (value_tail T) W t u2)"
    unfolding value_re_def in_rmatch_Seq .
  then obtain u1 u2 where u1: "u1 \<in> set (rmatch not_behind_word W t s)"
    and tail: "s' \<in> set (rmatch (value_tail T) W t u2)"
    by blast
  from tail have "\<exists>u3 \<in> set (rmatch (Opt (Lit 32)) W t u2).
      \<exists>u4 \<in> set (rmatch (Opt (Seq (In [(58, 58), (45, 45)]) (Seq (Opt (Lit 32)) Empty))) W t u3).
      \<exists>u5 \<in> set (rmatch (Group 2 number_re) W t u4).
      \<exists>u6 \<in> set (rmatch (Opt (Lit 32)) W t u5).
      \<exists>u7 \<in> set (rmatch (Group 3 T) W t u6).
      \<exists>u8 \<in> set (rmatch not_ahead_word W t u7). s' \<in> set (rmatch Empty W t u8)"
    unfolding value_tail_def in_rmatch_Seq .
  then obtain u4 u5 u6 u7 u8 where
    u5: "u5 \<in> set (rmatch (Group 2 number_re) W t u4)"
    and u6: "u6 \<in> set (rmatch (Opt (Lit 32)) W t u5)"
    and u7: "u7 \<in> set (rmatch (Group 3 T) W t u6)"
    and u8: "u8 \<in> set (rmatch not_ahead_word W t u7)"
    and s': "s' \<in> set (rmatch Empty W t u8)"
    by blast
  from s' rmatch_not_ahead_word(1) [OF u8] have eq: "s' = u7" by simp
  from rmatch_not_behind_word(2) [OF u1]
  show "pos s = 0 \<or> \<not> (pos s - 1 < length t \<and> is_word W (t ! (pos s - 1)))" .
  from rmatch_not_ahead_word(2) [OF u8] eq
  show "\<not> (pos s' < length t \<and> is_word W (t ! pos s'))" by simp
  from u5 obtain v where v: "v \<in> set (rmatch number_re W t u4)"
    and u5': "u5 = v\<lparr>caps := (caps v)(2 \<mapsto> (pos u4, pos v))\<rparr>"
    by auto
  have "caps u6 2 = caps u5 2"
    by (rule rmatch_caps_other [OF u6]) simp
  moreover have "caps u7 2 = caps u6 2"
    by (rule rmatch_caps_other [OF u7]) (use assms(2) in simp)
  ultimately have "caps s' 2 = Some (pos u4, pos v)"
    using eq u5' by simp
  with rmatch_number_re(3,4) [OF v]
  show "\<exists>a b. caps s' 2 = Some (a, b) \<and> number_string (slice t a b)
           \<and> decimal_string (replace 44 46 (slice t a b))"
    by blast
  from u7 eq show "caps s' 3 \<noteq> None" by auto
qed

lemma mention_re_match:
  assumes "s' \<in> set (rmatch (mention_re U) W t s)"
  shows "pos s = 0 \<or> \<not> (pos s - 1 < length t \<and> is_word W (t ! (pos s - 1)))"
    and "\<not> (pos s' < length t \<and> is_word W (t ! pos s'))"
proof -
  from assms have "\<exists>u1 \<in> set (rmatch not_behind_word W t s).
      \<exists>u2 \<in> set (rmatch (Group 1 U) W t u1).
      \<exists>u3 \<in> set (rmatch not_ahead_word W t u2). s' \<in> set (rmatch Empty W t u3)"
    unfolding mention_re_def in_rmatch_Seq .
  then obtain u1 u2 u3 where u1: "u1 \<in> set (rmatch not_behind_word W t s)"
    and u3: "u3 \<in> set (rmatch not_ahead_word W t u2)"
    and s': "s' \<in> set (rmatch Empty W t u3)"
    by blast
  from rmatch_not_behind_word(2) [OF u1]
  show "pos s = 0 \<or> \<not> (pos s - 1 < length t \<and> is_word W (t ! (pos s - 1)))" .
  from s' rmatch_not_ahead_word [OF u3]
  show "\<not> (pos s' < length t \<and> is_word W (t ! pos s'))" by simp
qed

text \<open>The same for the matches that \<open>finditer\<close> reports.\<close>

definition bounded_match :: "(int \<Rightarrow> bool) \<Rightarrow> pystr \<Rightarrow> rematch \<Rightarrow> bool" where
  "bounded_match W t m \<longleftrightarrow>
     m_start m \<le> m_end m \<and> m_end m \<le> length t
     \<and> (m_start m = 0 \<or> \<not> is_word W (t ! (m_start m - 1)))
     \<and> (m_end m = length t \<or> \<not> is_word W (t ! m_end m))"

lemma finditer_value_re:
  assumes "m \<in> set (finditer (value_re U T) W t)" and "2 \<notin> set (groups T)"
  shows "bounded_match W t m"
    and "\<exists>g. group t m 2 = Some g \<and> number_string g \<and> decimal_string (replace 44 46 g)"
    and "group t m 3 \<noteq> None"
proof -
  from assms(1) obtain s' where
    s': "s' \<in> set (rmatch (value_re U T) W t \<lparr>pos = m_start m, caps = \<lambda>n. None\<rparr>)"
    and le: "m_start m \<le> length t" and e: "m_end m = pos s'" and c: "m_caps m = caps s'"
    by (rule finditer_sound)
  from value_re_match(1,2) [OF s' assms(2)] e le finditer_span [OF assms(1)]
  show "bounded_match W t m"
    by (auto simp: bounded_match_def)
  from value_re_match(3) [OF s' assms(2)] c
  show "\<exists>g. group t m 2 = Some g \<and> number_string g \<and> decimal_string (replace 44 46 g)"
    by (auto simp: group_def)
  from value_re_match(4) [OF s' assms(2)] c show "group t m 3 \<noteq> None"
    by (auto simp: group_def)
qed

lemma finditer_mention_re:
  assumes "m \<in> set (finditer (mention_re U) W t)"
  shows "bounded_match W t m"
proof -
  from assms obtain s' where
    s': "s' \<in> set (rmatch (mention_re U) W t \<lparr>pos = m_start m, caps = \<lambda>n. None\<rparr>)"
    and le: "m_start m \<le> length t" and e: "m_end m = pos s'"
    by (rule finditer_sound)
  from mention_re_match [OF s'] e le finditer_span [OF assms]
  show "bounded_match W t m"
    by (auto simp: bounded_match_def)
qed

lemma groups_literal: "groups (literal u) = []"
  by (induction u) (simp_all add: literal_def)

lemma groups_branches: "(\<And>r. r \<in> set rs \<Longrightarrow> groups r = []) \<Longrightarrow> groups (branches rs) = []"
  by (induction rs rule: branches.induct) simp_all

lemma list_all2_pick:
  "list_all2 P xs ys \<Longrightarrow> x \<in> set xs \<Longrightarrow> \<exists>y \<in> set ys. P x y"
  by (induction rule: list_all2_induct) auto

lemma list_all2_same_keys:
  "list_all2 P xs ys \<Longrightarrow> (\<And>x y. P x y \<Longrightarrow> f x = g y) \<Longrightarrow> map f xs = map g ys"
  by (induction rule: list_all2_induct) auto

section \<open>What the two loops compute\<close>

text \<open>
  The text that is searched for a matcher, the matches found in it (an absent or
  empty text is not searched), and the records made of a match.
\<close>

definition searched_text :: "('c \<Rightarrow> OCRRegex \<Rightarrow> pystr option) \<Rightarrow> 'c \<Rightarrow> OCRRegex \<Rightarrow> pystr" where
  "searched_text get_text content r = (case get_text content r of None \<Rightarrow> [] | Some t \<Rightarrow> t)"

definition found ::
  "(int \<Rightarrow> bool) \<Rightarrow> ('c \<Rightarrow> OCRRegex \<Rightarrow> pystr option) \<Rightarrow> 'c \<Rightarrow> OCRRegex \<Rightarrow> rematch list" where
  "found W get_text content r =
     (case get_text content r of
        None \<Rightarrow> []
      | Some t \<Rightarrow> if t = [] then [] else finditer (regex r) W t)"

definition value_match_of :: "string \<Rightarrow> pystr \<Rightarrow> rematch \<Rightarrow> ValueMatch" where
  "value_match_of k t m =
     \<lparr>vm_raw = group0 t m, vm_nutrient = k,
      vm_value = replace 44 46 (case group t m 2 of None \<Rightarrow> [] | Some g \<Rightarrow> g),
      vm_unit = group t m 3\<rparr>"

definition mention_match_of :: "pystr \<Rightarrow> rematch \<Rightarrow> MentionMatch" where
  "mention_match_of t m = \<lparr>mm_raw = group0 t m, mm_span = [m_start m, m_end m]\<rparr>"

definition value_entries ::
  "(int \<Rightarrow> bool) \<Rightarrow> ('c \<Rightarrow> OCRRegex \<Rightarrow> pystr option) \<Rightarrow> 'c \<Rightarrow> (string \<times> OCRRegex) list
    \<Rightarrow> (string \<times> ValueMatch list) list" where
  "value_entries W get_text content tbl =
     concat (map (\<lambda>(k, r).
        if found W get_text content r = [] then []
        else [(k, map (value_match_of k (searched_text get_text content r))
                    (found W get_text content r))]) tbl)"

definition mention_entries ::
  "(int \<Rightarrow> bool) \<Rightarrow> ('c \<Rightarrow> OCRRegex \<Rightarrow> pystr option) \<Rightarrow> 'c \<Rightarrow> (string \<times> OCRRegex) list
    \<Rightarrow> (string \<times> MentionMatch list) list" where
  "mention_entries W get_text content tbl =
     concat (map (\<lambda>(k, r).
        if found W get_text content r = [] then []
        else [(k, map (mention_match_of (searched_text get_text content r))
                    (found W get_text content r))]) tbl)"

lemma append_at_other: "map_of d k = None \<Longrightarrow> append_at k x d = d"
proof -
  assume "map_of d k = None"
  then have "k \<notin> fst ` set d" by (simp add: map_of_eq_None_iff)
  then have "\<And>e. e \<in> set d \<Longrightarrow> (case e of (k', xs) \<Rightarrow> if k' = k then (k', xs @ [x]) else (k', xs)) = e"
    by (force split: prod.splits)
  then show ?thesis by (simp add: append_at_def map_idI)
qed

lemma append_at_last:
  "map_of d k = None \<Longrightarrow> append_at k x (d @ [(k, xs)]) = d @ [(k, xs @ [x])]"
  using append_at_other [of d k x] by (simp add: append_at_def)

lemma setdefault_present: "map_of d k = None \<Longrightarrow> setdefault k v (d @ [(k, xs)]) = d @ [(k, xs)]"
  by (simp add: setdefault_def)

lemma setdefault_absent: "map_of d k = None \<Longrightarrow> setdefault k v d = d @ [(k, v)]"
  by (simp add: setdefault_def)

lemma values_of_matches_acc:
  assumes "map_of d k = None" and "\<And>m. m \<in> set ms \<Longrightarrow> group t m 2 \<noteq> None"
  shows "values_of_matches k t ms (d @ [(k, xs)]) = Inr (d @ [(k, xs @ map (value_match_of k t) ms)])"
  using assms(2)
proof (induction ms arbitrary: xs)
  case Nil
  then show ?case by simp
next
  case (Cons m ms)
  from Cons.prems [of m] obtain g where g: "group t m 2 = Some g" by auto
  have "values_of_matches k t (m # ms) (d @ [(k, xs)])
      = values_of_matches k t ms (d @ [(k, xs @ [value_match_of k t m])])"
    using g assms(1) by (simp add: setdefault_present append_at_last value_match_of_def)
  also have "\<dots> = Inr (d @ [(k, (xs @ [value_match_of k t m]) @ map (value_match_of k t) ms)])"
    by (rule Cons.IH) (use Cons.prems in simp)
  finally show ?case by simp
qed

lemma values_of_matches_new:
  assumes "map_of d k = None" and "\<And>m. m \<in> set ms \<Longrightarrow> group t m 2 \<noteq> None"
  shows "values_of_matches k t ms d
      = Inr (if ms = [] then d else d @ [(k, map (value_match_of k t) ms)])"
proof (cases ms)
  case Nil
  then show ?thesis by simp
next
  case (Cons m ms')
  from assms(2) [of m] Cons obtain g where g: "group t m 2 = Some g" by auto
  have "values_of_matches k t (m # ms') d
      = values_of_matches k t ms' (d @ [(k, [] @ [value_match_of k t m])])"
    using g assms(1) by (simp add: setdefault_absent append_at_last value_match_of_def)
  also have "\<dots> = Inr (d @ [(k, ([] @ [value_match_of k t m]) @ map (value_match_of k t) ms')])"
    by (rule values_of_matches_acc [OF assms(1)]) (use assms(2) Cons in simp)
  finally show ?thesis using Cons by simp
qed

lemma mentions_of_matches_acc:
  assumes "map_of d k = None"
  shows "mentions_of_matches k t ms (d @ [(k, xs)]) = d @ [(k, xs @ map (mention_match_of t) ms)]"
proof (induction ms arbitrary: xs)
  case Nil
  then show ?case by simp
next
  case (Cons m ms)
  have "mentions_of_matches k t (m # ms) (d @ [(k, xs)])
      = mentions_of_matches k t ms (d @ [(k, xs @ [mention_match_of t m])])"
    using assms by (simp add: setdefault_present append_at_last mention_match_of_def)
  also have "\<dots> = d @ [(k, (xs @ [mention_match_of t m]) @ map (mention_match_of t) ms)]"
    by (rule Cons.IH)
  finally show ?case by simp
qed

lemma mentions_of_matches_new:
  assumes "map_of d k = None"
  shows "mentions_of_matches k t ms d
      = (if ms = [] then d else d @ [(k, map (mention_match_of t) ms)])"
proof (cases ms)
  case Nil
  then show ?thesis by simp
next
  case (Cons m ms')
  have "mentions_of_matches k t (m # ms') d
      = mentions_of_matches k t ms' (d @ [(k, [] @ [mention_match_of t m])])"
    using assms by (simp add: setdefault_absent append_at_last mention_match_of_def)
  also have "\<dots> = d @ [(k, ([] @ [mention_match_of t m]) @ map (mention_match_of t) ms')]"
    by (rule mentions_of_matches_acc [OF assms])
  finally show ?thesis using Cons by simp
qed

lemma value_entries_keys: "fst ` set (value_entries W G c tbl) \<subseteq> fst ` set tbl"
  by (force simp: value_entries_def split: if_splits)

lemma values_loop_entries:
  assumes "distinct (map fst tbl)"
    and "\<And>k. k \<in> fst ` set tbl \<Longrightarrow> map_of d k = None"
    and "\<And>k r t m. (k, r) \<in> set tbl \<Longrightarrow> m \<in> set (finditer (regex r) W t) \<Longrightarrow> group t m 2 \<noteq> None"
  shows "values_loop W G c tbl d = Inr (d @ value_entries W G c tbl)"
  using assms
proof (induction tbl arbitrary: d)
  case Nil
  then show ?case by (simp add: value_entries_def)
next
  case (Cons e tbl)
  obtain k r where e: "e = (k, r)" by (cases e)
  have dk: "map_of d k = None" using Cons.prems(2) e by simp
  have grp: "\<And>m. m \<in> set (found W G c r) \<Longrightarrow> group (searched_text G c r) m 2 \<noteq> None"
    using Cons.prems(3) [of k r] e
    by (auto simp: found_def searched_text_def split: option.splits if_splits)
  let ?new = "if found W G c r = [] then []
      else [(k, map (value_match_of k (searched_text G c r)) (found W G c r))]"
  have step: "values_loop W G c (e # tbl) d = values_loop W G c tbl (d @ ?new)"
  proof (cases "G c r")
    case None
    then show ?thesis by (simp add: e found_def)
  next
    case (Some t)
    show ?thesis
    proof (cases "t = []")
      case True
      with Some show ?thesis by (simp add: e found_def)
    next
      case False
      with Some have f: "found W G c r = finditer (regex r) W t" "searched_text G c r = t"
        by (simp_all add: found_def searched_text_def)
      from values_of_matches_new [OF dk, of "finditer (regex r) W t" t] grp f
      have "values_of_matches k t (finditer (regex r) W t) d = Inr (d @ ?new)"
        by auto
      with Some False show ?thesis by (simp add: e)
    qed
  qed
  have rest: "values_loop W G c tbl (d @ ?new) = Inr ((d @ ?new) @ value_entries W G c tbl)"
  proof (rule Cons.IH)
    show "distinct (map fst tbl)" using Cons.prems(1) by simp
    fix k' assume k': "k' \<in> fst ` set tbl"
    then have "k' \<noteq> k" using Cons.prems(1) e by auto
    moreover have "map_of d k' = None" using Cons.prems(2) k' by simp
    ultimately show "map_of (d @ ?new) k' = None" by simp
  next
    fix k' r' t m assume "(k', r') \<in> set tbl" "m \<in> set (finditer (regex r') W t)"
    then show "group t m 2 \<noteq> None" using Cons.prems(3) [of k' r' m t] by simp
  qed
  have "value_entries W G c (e # tbl) = ?new @ value_entries W G c tbl"
    by (simp add: value_entries_def e)
  with step rest show ?case by simp
qed

lemma mentions_loop_entries:
  assumes "distinct (map fst tbl)"
    and "\<And>k. k \<in> fst ` set tbl \<Longrightarrow> map_of d k = None"
  shows "mentions_loop W G c tbl d = d @ mention_entries W G c tbl"
  using assms
proof (induction tbl arbitrary: d)
  case Nil
  then show ?case by (simp add: mention_entries_def)
next
  case (Cons e tbl)
  obtain k r where e: "e = (k, r)" by (cases e)
  have dk: "map_of d k = None" using Cons.prems(2) e by simp
  let ?new = "if found W G c r = [] then []
      else [(k, map (mention_match_of (searched_text G c r)) (found W G c r))]"
  have step: "mentions_loop W G c (e # tbl) d = mentions_loop W G c tbl (d @ ?new)"
  proof (cases "G c r")
    case None
    then show ?thesis by (simp add: e found_def)
  next
    case (Some t)
    show ?thesis
    proof (cases "t = []")
      case True
      with Some show ?thesis by (simp add: e found_def)
    next
      case False
      with Some have f: "found W G c r = finditer (regex r) W t" "searched_text G c r = t"
        by (simp_all add: found_def searched_text_def)
      from mentions_of_matches_new [OF dk, of t "finditer (regex r) W t"] f
      have "mentions_of_matches k t (finditer (regex r) W t) d = d @ ?new"
        by auto
      with Some False show ?thesis by (simp add: e)
    qed
  qed
  have rest: "mentions_loop W G c tbl (d @ ?new) = (d @ ?new) @ mention_entries W G c tbl"
  proof (rule Cons.IH)
    show "distinct (map fst tbl)" using Cons.prems(1) by simp
    fix k' assume k': "k' \<in> fst ` set tbl"
    then have "k' \<noteq> k" using Cons.prems(1) e by auto
    moreover have "map_of d k' = None" using Cons.prems(2) k' by simp
    ultimately show "map_of (d @ ?new) k' = None" by simp
  qed
  have "mention_entries W G c (e # tbl) = ?new @ mention_entries W G c tbl"
    by (simp add: mention_entries_def e)
  with step rest show ?case by simp
qed

lemma value_entries_mem:
  "(k, vs) \<in> set (value_entries W G c tbl) \<longleftrightarrow>
     (\<exists>r. (k, r) \<in> set tbl \<and> found W G c r \<noteq> []
          \<and> vs = map (value_match_of k (searched_text G c r)) (found W G c r))"
  by (auto simp: value_entries_def split: if_splits)

lemma mention_entries_mem:
  "(k, ms) \<in> set (mention_entries W G c tbl) \<longleftrightarrow>
     (\<exists>r. (k, r) \<in> set tbl \<and> found W G c r \<noteq> []
          \<and> ms = map (mention_match_of (searched_text G c r)) (found W G c r))"
  by (auto simp: mention_entries_def split: if_splits)

lemma value_entries_empty:
  "value_entries W G c tbl = [] \<longleftrightarrow> (\<forall>(k, r) \<in> set tbl. found W G c r = [])"
  by (auto simp: value_entries_def split: if_splits)

lemma mention_entries_empty:
  "mention_entries W G c tbl = [] \<longleftrightarrow> (\<forall>(k, r) \<in> set tbl. found W G c r = [])"
  by (auto simp: mention_entries_def split: if_splits)

lemma value_entries_key_iff:
  "k \<in> fst ` set (value_entries W G c tbl) \<longleftrightarrow> (\<exists>r. (k, r) \<in> set tbl \<and> found W G c r \<noteq> [])"
proof
  assume "k \<in> fst ` set (value_entries W G c tbl)"
  then obtain vs where "(k, vs) \<in> set (value_entries W G c tbl)" by auto
  then show "\<exists>r. (k, r) \<in> set tbl \<and> found W G c r \<noteq> []"
    unfolding value_entries_mem by blast
next
  assume "\<exists>r. (k, r) \<in> set tbl \<and> found W G c r \<noteq> []"
  then obtain r where r: "(k, r) \<in> set tbl" "found W G c r \<noteq> []" by blast
  then have "(k, map (value_match_of k (searched_text G c r)) (found W G c r))
      \<in> set (value_entries W G c tbl)"
    unfolding value_entries_mem by blast
  then show "k \<in> fst ` set (value_entries W G c tbl)" by force
qed

lemma mention_entries_key_iff:
  "k \<in> fst ` set (mention_entries W G c tbl) \<longleftrightarrow> (\<exists>r. (k, r) \<in> set tbl \<and> found W G c r \<noteq> [])"
proof
  assume "k \<in> fst ` set (mention_entries W G c tbl)"
  then obtain vs where "(k, vs) \<in> set (mention_entries W G c tbl)" by auto
  then show "\<exists>r. (k, r) \<in> set tbl \<and> found W G c r \<noteq> []"
    unfolding mention_entries_mem by blast
next
  assume "\<exists>r. (k, r) \<in> set tbl \<and> found W G c r \<noteq> []"
  then obtain r where r: "(k, r) \<in> set tbl" "found W G c r \<noteq> []" by blast
  then have "(k, map (mention_match_of (searched_text G c r)) (found W G c r))
      \<in> set (mention_entries W G c tbl)"
    unfolding mention_entries_mem by blast
  then show "k \<in> fst ` set (mention_entries W G c tbl)" by force
qed

lemma found_Some:
  assumes "found W G c r \<noteq> []"
  obtains t where "G c r = Some t" and "t \<noteq> []" and "found W G c r = finditer (regex r) W t"
    and "searched_text G c r = t"
  using assms by (auto simp: found_def searched_text_def split: option.splits if_splits)

subsection \<open>Matchers with the same matches\<close>

text \<open>
  What the extractors read of a match: its span and the spans of groups 2 and 3.
\<close>

definition observed :: "rematch \<Rightarrow> nat \<times> nat \<times> (nat \<times> nat) option \<times> (nat \<times> nat) option" where
  "observed m = (m_start m, m_end m, m_caps m 2, m_caps m 3)"

definition state_observed :: "mstate \<Rightarrow> nat \<times> (nat \<times> nat) option \<times> (nat \<times> nat) option" where
  "state_observed s = (pos s, caps s 2, caps s 3)"

definition setcap :: "nat \<Rightarrow> (nat \<times> nat) option \<Rightarrow> mstate \<Rightarrow> mstate" where
  "setcap g v s = s\<lparr>caps := (caps s)(g := v)\<rparr>"

lemma setcap_simps [simp]:
  "pos (setcap g v s) = pos s"
  "caps (setcap g v s) = (caps s)(g := v)"
  "(setcap g v s)\<lparr>pos := p\<rparr> = setcap g v (s\<lparr>pos := p\<rparr>)"
  by (simp_all add: setcap_def)

lemma step_setcap: "step P t (setcap g v s) = map (setcap g v) (step P t s)"
  by (simp add: step_def)

lemma star_setcap:
  assumes "\<And>s. f (setcap g v s) = map (setcap g v) (f s)"
  shows "star n f (setcap g v s) = map (setcap g v) (star n f s)"
proof (induction n arbitrary: s)
  case 0
  then show ?case by simp
next
  case (Suc n)
  have "filter (\<lambda>s'. pos s < pos s') (map (setcap g v) (f s))
      = map (setcap g v) (filter (\<lambda>s'. pos s < pos s') (f s))"
    by (simp add: filter_map comp_def)
  then show ?case
    by (simp add: assms Suc.IH map_concat comp_def)
qed

lemma rmatch_setcap:
  "g \<notin> set (groups r) \<Longrightarrow> rmatch r W t (setcap g v s) = map (setcap g v) (rmatch r W t s)"
proof (induction r arbitrary: s)
  case (Seq a b)
  then show ?case by (simp add: map_concat comp_def)
next
  case (Star a)
  then show ?case using star_setcap [of "rmatch a W t" g v] by simp
next
  case (Plus a)
  then show ?case using star_setcap [of "rmatch a W t" g v] by (simp add: map_concat comp_def)
next
  case (Group n a)
  then have "n \<noteq> g" by auto
  then have "(\<lambda>s'. s'\<lparr>caps := (caps s')(n \<mapsto> (pos s, pos s'))\<rparr>) \<circ> setcap g v
      = setcap g v \<circ> (\<lambda>s'. s'\<lparr>caps := (caps s')(n \<mapsto> (pos s, pos s'))\<rparr>)"
    by (auto simp: setcap_def fun_upd_twist)
  with Group show ?case by simp
next
  case (AssertNot behind a)
  then show ?case by (simp split: option.splits)
qed (simp_all add: step_setcap)

text \<open>Sequences may be regrouped, and an empty pattern at the end dropped.\<close>

lemma rmatch_Seq_assoc: "rmatch (Seq (Seq a b) c) W t s = rmatch (Seq a (Seq b c)) W t s"
proof -
  have "concat (map f (concat (map g xs))) = concat (map (\<lambda>x. concat (map f (g x))) xs)"
    for f :: "mstate \<Rightarrow> mstate list" and g :: "mstate \<Rightarrow> mstate list" and xs
    by (induction xs) simp_all
  moreover have "rmatch (Seq b c) W t = (\<lambda>x. concat (map (rmatch c W t) (rmatch b W t x)))"
    by (rule ext) simp
  ultimately show ?thesis by simp
qed

lemma rmatch_Seq_Empty: "rmatch (Seq a Empty) W t s = rmatch a W t s"
proof -
  have "rmatch Empty W t = (\<lambda>s. [s])" by (rule ext) simp
  then show ?thesis by simp
qed

lemma rmatch_Seq_cong:
  "(\<And>s. rmatch a W t s = rmatch a' W t s) \<Longrightarrow> (\<And>s. rmatch b W t s = rmatch b' W t s)
    \<Longrightarrow> rmatch (Seq a b) W t s = rmatch (Seq a' b') W t s"
  by (simp cong: map_cong)

lemma rmatch_Opt_cong:
  "(\<And>s. rmatch a W t s = rmatch a' W t s) \<Longrightarrow> rmatch (Opt a) W t s = rmatch (Opt a') W t s"
  by simp

lemma rmatch_Group_cong:
  "(\<And>s. rmatch a W t s = rmatch a' W t s) \<Longrightarrow> rmatch (Group n a) W t s = rmatch (Group n a') W t s"
  by simp

lemma rmatch_word_anchor:
  "rmatch (AssertNot b (Seq WordChar Empty)) W t s = rmatch (AssertNot b WordChar) W t s"
proof -
  have "rmatch (Seq WordChar Empty) W t u = rmatch WordChar W t u" for u
    by (rule rmatch_Seq_Empty)
  then show ?thesis by simp
qed

text \<open>
  Two patterns whose ways of matching look the same at every start give the same
  matches to \<open>finditer\<close>.
\<close>

lemma attempts_observed:
  assumes "\<And>p. map state_observed (rmatch r1 W t \<lparr>pos = p, caps = \<lambda>n. None\<rparr>)
              = map state_observed (rmatch r2 W t \<lparr>pos = p, caps = \<lambda>n. None\<rparr>)"
  shows "map state_observed (attempts r1 W t p adv) = map state_observed (attempts r2 W t p adv)"
proof -
  have "map state_observed (filter (\<lambda>s. \<not> adv \<or> p < pos s) xs)
      = filter (\<lambda>ob. \<not> adv \<or> p < fst ob) (map state_observed xs)" for xs
    by (induction xs) (auto simp: state_observed_def)
  then show ?thesis by (simp add: attempts_def assms)
qed

lemma scan_observed:
  assumes "\<And>p. map state_observed (rmatch r1 W t \<lparr>pos = p, caps = \<lambda>n. None\<rparr>)
              = map state_observed (rmatch r2 W t \<lparr>pos = p, caps = \<lambda>n. None\<rparr>)"
  shows "map observed (scan r1 W t p adv) = map observed (scan r2 W t p adv)"
  using assms
proof (induction r1 W t p adv rule: scan.induct)
  case (1 r1 W t p adv)
  note eq = attempts_observed [of r1 W t r2 p adv, OF "1.prems"]
  show ?case
  proof (cases "length t < p")
    case True
    then show ?thesis by (simp add: scan.simps [of _ W t p adv])
  next
    case le: False
    show ?thesis
    proof (cases "attempts r1 W t p adv")
      case Nil
      with eq have n2: "attempts r2 W t p adv = []" by simp
      from "1.IH"(1) [OF le Nil "1.prems"] Nil n2 le show ?thesis
        by (simp add: scan.simps [of _ W t p adv])
    next
      case (Cons s ss)
      with eq obtain s2 ss2 where c2: "attempts r2 W t p adv = s2 # ss2"
        and so: "state_observed s = state_observed s2"
        by (cases "attempts r2 W t p adv") auto
      from so have same: "pos s2 = pos s" "caps s2 2 = caps s 2" "caps s2 3 = caps s 3"
        by (simp_all add: state_observed_def)
      from "1.IH"(2) [OF le Cons "1.prems"]
      have "map observed (scan r1 W t (pos s) (pos s = p))
          = map observed (scan r2 W t (pos s) (pos s = p))" .
      moreover have "observed \<lparr>m_start = p, m_end = pos s, m_caps = caps s\<rparr>
          = observed \<lparr>m_start = p, m_end = pos s2, m_caps = caps s2\<rparr>"
        using same by (simp add: observed_def)
      ultimately show ?thesis using Cons c2 le same(1)
        by (simp add: scan.simps [of _ W t p adv])
    qed
  qed
qed

lemma finditer_observed:
  assumes "\<And>p. map state_observed (rmatch r1 W t \<lparr>pos = p, caps = \<lambda>n. None\<rparr>)
              = map state_observed (rmatch r2 W t \<lparr>pos = p, caps = \<lambda>n. None\<rparr>)"
  shows "map observed (finditer r1 W t) = map observed (finditer r2 W t)"
  unfolding finditer_def by (rule scan_observed [OF assms])

text \<open>
  The bound on the rounds of a repetition is never what stops it: with a larger
  bound the matcher finds the same.
\<close>

lemma star_bound_enough:
  assumes inside: "\<And>s s'. s' \<in> set (f s) \<Longrightarrow> pos s \<le> length t \<Longrightarrow> pos s' \<le> length t"
  shows "length t - pos s \<le> n \<Longrightarrow> pos s \<le> length t \<Longrightarrow> star (n + k) f s = star n f s"
proof (induction n arbitrary: s)
  case 0
  then have at_end: "pos s = length t" by simp
  have none: "filter (\<lambda>s'. pos s < pos s') (f s) = []"
  proof -
    have "\<not> pos s < pos s'" if "s' \<in> set (f s)" for s'
      using inside [OF that] at_end by simp
    then show ?thesis by (simp add: filter_empty_conv)
  qed
  show ?case
  proof (cases k)
    case 0
    then show ?thesis by simp
  next
    case (Suc k')
    with none show ?thesis by simp
  qed
next
  case (Suc n)
  let ?F = "filter (\<lambda>s'. pos s < pos s') (f s)"
  have "star (n + k) f s' = star n f s'" if "s' \<in> set ?F" for s'
  proof -
    from that have s': "s' \<in> set (f s)" "pos s < pos s'" by simp_all
    from inside [OF s'(1) Suc.prems(2)] have le: "pos s' \<le> length t" .
    with s'(2) Suc.prems(1) have "length t - pos s' \<le> n" by simp
    from Suc.IH [OF this le] show ?thesis .
  qed
  then have "map (star (n + k) f) ?F = map (star n f) ?F" by (rule map_cong [OF refl])
  then show ?case by (simp only: star.simps add_Suc)
qed

lemma rmatch_Star_bound_enough:
  "pos s \<le> length t \<Longrightarrow> star (length t - pos s + k) (rmatch a W t) s = rmatch (Star a) W t s"
  using star_bound_enough [of "rmatch a W t" t s "length t - pos s" k] rmatch_pos_le [of _ a W t]
  by simp

section \<open>The tables of the imported module\<close>

definition values_table :: "(string \<times> OCRRegex) list" where
  "values_table = (case NUTRIENT_VALUES_REGEX of Inl e \<Rightarrow> [] | Inr tbl \<Rightarrow> tbl)"

definition mentions_table :: "(string \<times> OCRRegex) list" where
  "mentions_table = (case NUTRIENT_MENTIONS_REGEX of Inl e \<Rightarrow> [] | Inr tbl \<Rightarrow> tbl)"

lemma values_table_eval:
  "(case NUTRIENT_VALUES_REGEX of
      Inl e \<Rightarrow> False
    | Inr tbl \<Rightarrow> list_all2 value_entry_ok tbl NUTRIENT_UNITS)"
  by code_simp

lemma mentions_table_eval:
  "(case NUTRIENT_MENTIONS_REGEX of
      Inl e \<Rightarrow> False
    | Inr tbl \<Rightarrow> list_all2 mention_entry_ok tbl (map fst NUTRIENT_MENTION))"
  by code_simp

lemma values_table_Inr: "NUTRIENT_VALUES_REGEX = Inr values_table"
proof (cases NUTRIENT_VALUES_REGEX)
  case (Inl a)
  from values_table_eval have False unfolding Inl by simp
  then show ?thesis ..
next
  case (Inr b)
  show ?thesis unfolding values_table_def Inr by simp
qed

lemma mentions_table_Inr: "NUTRIENT_MENTIONS_REGEX = Inr mentions_table"
proof (cases NUTRIENT_MENTIONS_REGEX)
  case (Inl a)
  from mentions_table_eval have False unfolding Inl by simp
  then show ?thesis ..
next
  case (Inr b)
  show ?thesis unfolding mentions_table_def Inr by simp
qed

lemma values_table_ok: "list_all2 value_entry_ok values_table NUTRIENT_UNITS"
  using values_table_eval unfolding values_table_Inr by simp

lemma mentions_table_ok: "list_all2 mention_entry_ok mentions_table (map fst NUTRIENT_MENTION)"
  using mentions_table_eval unfolding mentions_table_Inr by simp

lemma units_keys:
  "map fst NUTRIENT_UNITS =
    [''energy'', ''saturated_fat'', ''trans_fat'', ''fat'', ''sugar'', ''carbohydrate'',
     ''protein'', ''salt'', ''fiber'']"
  by (simp add: NUTRIENT_UNITS_def)

lemma mention_keys:
  "map fst NUTRIENT_MENTION =
    [''energy'', ''saturated_fat'', ''trans_fat'', ''fat'', ''sugar'', ''carbohydrate'',
     ''protein'', ''salt'', ''fiber'', ''nutrition_values'']"
  by (simp add: NUTRIENT_MENTION_def)

lemma values_table_keys: "map fst values_table = map fst NUTRIENT_UNITS"
  by (rule list_all2_same_keys [OF values_table_ok])
     (simp add: value_entry_ok_def split: option.splits)

lemma mentions_table_keys: "map fst mentions_table = map fst NUTRIENT_MENTION"
proof -
  have "map fst mentions_table = map (\<lambda>k. k) (map fst NUTRIENT_MENTION)"
    by (rule list_all2_same_keys [OF mentions_table_ok])
       (simp add: mention_entry_ok_def split: option.splits)
  then show ?thesis by simp
qed

lemma values_table_distinct: "distinct (map fst values_table)"
  by (simp add: values_table_keys units_keys)

lemma mentions_table_distinct: "distinct (map fst mentions_table)"
  by (simp add: mentions_table_keys mention_keys)

lemma values_table_regex:
  assumes "(k, r) \<in> set values_table"
  obtains U T where "regex r = value_re U T" and "groups T = []"
proof -
  from list_all2_pick [OF values_table_ok assms]
  obtain u where "value_entry_ok (k, r) u" by blast
  then obtain Us where "regex r = value_re (branches Us) (branches (map literal (snd u)))"
    by (auto simp: value_entry_ok_def split: option.splits)
  moreover have "groups (branches (map literal (snd u))) = []"
    by (rule groups_branches) (auto simp: groups_literal)
  ultimately show thesis by (rule that)
qed

lemma mentions_table_regex:
  assumes "(k, r) \<in> set mentions_table"
  obtains U where "regex r = mention_re U"
proof -
  from list_all2_pick [OF mentions_table_ok assms]
  obtain u where "mention_entry_ok (k, r) u" by blast
  then obtain Us where "regex r = mention_re (branches Us)"
    by (auto simp: mention_entry_ok_def split: option.splits)
  then show thesis by (rule that)
qed

lemma values_table_group2:
  assumes "(k, r) \<in> set values_table" and "m \<in> set (finditer (regex r) W t)"
  shows "group t m 2 \<noteq> None"
proof -
  from assms(1) obtain U T where r: "regex r = value_re U T" and T: "groups T = []"
    by (rule values_table_regex)
  from finditer_value_re(2) [of m U T W t] assms(2) r T show ?thesis by auto
qed

lemma import_module_tables:
  "import_module NUTRIENT_MENTION NUTRIENT_UNITS = Inr (values_table, mentions_table)"
proof -
  have "build_values_regex NUTRIENT_MENTION NUTRIENT_UNITS = Inr values_table"
    using values_table_Inr by (simp only: NUTRIENT_VALUES_REGEX_def)
  moreover have "build_mentions_regex NUTRIENT_MENTION (map fst NUTRIENT_MENTION) = Inr mentions_table"
    using mentions_table_Inr by (simp only: NUTRIENT_MENTIONS_REGEX_def)
  ultimately show ?thesis by (simp add: import_module_def)
qed

lemma find_nutrient_values_eq:
  "find_nutrient_values W G c =
     Inr (if value_entries W G c values_table = [] then []
          else [\<lparr>payload_key = ''nutrients'', payload = value_entries W G c values_table,
                  version = EXTRACTOR_VERSION\<rparr>])"
proof -
  have "values_loop W G c values_table [] = Inr ([] @ value_entries W G c values_table)"
  proof (rule values_loop_entries [OF values_table_distinct])
    show "map_of [] k = None" for k :: string and d :: "(string \<times> ValueMatch list) list"
      by simp
    show "group t m 2 \<noteq> None"
      if "(k, r) \<in> set values_table" "m \<in> set (finditer (regex r) W t)" for k r t m
      using that by (rule values_table_group2)
  qed
  then show ?thesis
    by (simp add: find_nutrient_values_def find_nutrient_values_in_def import_module_tables)
qed

lemma find_nutrient_mentions_eq:
  "find_nutrient_mentions W G c =
     Inr (if mention_entries W G c mentions_table = [] then []
          else [\<lparr>payload_key = ''mentions'', payload = mention_entries W G c mentions_table,
                  version = EXTRACTOR_VERSION\<rparr>])"
proof -
  have "mentions_loop W G c mentions_table [] = [] @ mention_entries W G c mentions_table"
    by (rule mentions_loop_entries [OF mentions_table_distinct]) auto
  then show ?thesis
    by (simp add: find_nutrient_mentions_def find_nutrient_mentions_in_def import_module_tables)
qed

definition example_text :: pystr where
  "example_text = str ''energie 250kcal proteines 5g sel 0,1g''"

definition example_nutrients :: "ValueMatch envelope" where
  "example_nutrients =
     \<lparr>payload_key = ''nutrients'',
      payload =
        [(''energy'', [\<lparr>vm_raw = str ''energie 250kcal'', vm_nutrient = ''energy'',
                        vm_value = str ''250'', vm_unit = Some (str ''kcal'')\<rparr>]),
         (''protein'', [\<lparr>vm_raw = str ''proteines 5g'', vm_nutrient = ''protein'',
                         vm_value = str ''5'', vm_unit = Some (str ''g'')\<rparr>]),
         (''salt'', [\<lparr>vm_raw = str ''sel 0,1g'', vm_nutrient = ''salt'',
                      vm_value = str ''0.1'', vm_unit = Some (str ''g'')\<rparr>])],
      version = ''1''\<rparr>"

definition example_mentioned :: "MentionMatch envelope" where
  "example_mentioned =
     \<lparr>payload_key = ''mentions'',
      payload =
        [(''energy'', [\<lparr>mm_raw = str ''energie'', mm_span = [0, 7]\<rparr>]),
         (''protein'', [\<lparr>mm_raw = str ''proteines'', mm_span = [16, 25]\<rparr>]),
         (''salt'', [\<lparr>mm_raw = str ''sel'', mm_span = [29, 32]\<rparr>])],
      version = ''1''\<rparr>"

lemma example_values:
  "find_nutrient_values W (\<lambda>c r. Some c) example_text = Inr [example_nutrients]"
  by code_simp

lemma example_mentions:
  "find_nutrient_mentions W (\<lambda>c r. Some c) example_text = Inr [example_mentioned]"
  by code_simp

section \<open>Properties of the two extractors\<close>

text \<open>
  C2.  In the mapping of the envelope that \<open>find_nutrient_values\<close> (and likewise
  \<open>find_nutrient_mentions\<close>) returns, a kind is a key exactly when the matcher of
  that kind found a match in the text searched for it, and the list under a key is
  never empty; the result is the empty sequence exactly when no kind found a match,
  and an envelope never carries an empty mapping.
\<close>

theorem no_key_without_match:
  "(\<exists>res. find_nutrient_values W get_text content = Inr res
      \<and> (res = [] \<longleftrightarrow> (\<forall>(k, r) \<in> set values_table. found W get_text content r = []))
      \<and> (\<forall>e \<in> set res.
            payload e \<noteq> []
          \<and> (\<forall>k. k \<in> fst ` set (payload e)
                \<longleftrightarrow> (\<exists>r. (k, r) \<in> set values_table \<and> found W get_text content r \<noteq> []))
          \<and> (\<forall>(k, vs) \<in> set (payload e). vs \<noteq> [])))
   \<and> (\<exists>res. find_nutrient_mentions W get_text content = Inr res
      \<and> (res = [] \<longleftrightarrow> (\<forall>(k, r) \<in> set mentions_table. found W get_text content r = []))
      \<and> (\<forall>e \<in> set res.
            payload e \<noteq> []
          \<and> (\<forall>k. k \<in> fst ` set (payload e)
                \<longleftrightarrow> (\<exists>r. (k, r) \<in> set mentions_table \<and> found W get_text content r \<noteq> []))
          \<and> (\<forall>(k, ms) \<in> set (payload e). ms \<noteq> [])))"
proof (intro conjI)
  let ?V = "value_entries W get_text content values_table"
  have "\<forall>(k, vs) \<in> set ?V. vs \<noteq> []"
    by (auto simp: value_entries_mem)
  then show "\<exists>res. find_nutrient_values W get_text content = Inr res
      \<and> (res = [] \<longleftrightarrow> (\<forall>(k, r) \<in> set values_table. found W get_text content r = []))
      \<and> (\<forall>e \<in> set res.
            payload e \<noteq> []
          \<and> (\<forall>k. k \<in> fst ` set (payload e)
                \<longleftrightarrow> (\<exists>r. (k, r) \<in> set values_table \<and> found W get_text content r \<noteq> []))
          \<and> (\<forall>(k, vs) \<in> set (payload e). vs \<noteq> []))"
    unfolding find_nutrient_values_eq
    by (simp add: value_entries_key_iff value_entries_empty)
next
  let ?M = "mention_entries W get_text content mentions_table"
  have "\<forall>(k, ms) \<in> set ?M. ms \<noteq> []"
    by (auto simp: mention_entries_mem)
  then show "\<exists>res. find_nutrient_mentions W get_text content = Inr res
      \<and> (res = [] \<longleftrightarrow> (\<forall>(k, r) \<in> set mentions_table. found W get_text content r = []))
      \<and> (\<forall>e \<in> set res.
            payload e \<noteq> []
          \<and> (\<forall>k. k \<in> fst ` set (payload e)
                \<longleftrightarrow> (\<exists>r. (k, r) \<in> set mentions_table \<and> found W get_text content r \<noteq> []))
          \<and> (\<forall>(k, ms) \<in> set (payload e). ms \<noteq> []))"
    unfolding find_nutrient_mentions_eq
    by (simp add: mention_entries_key_iff mention_entries_empty)
qed

theorem no_key_without_match_witness:
  "\<exists>r. find_nutrient_values (\<lambda>c. False) (\<lambda>c r. Some c) example_text = Inr [example_nutrients]
     \<and> ''salt'' \<in> fst ` set (payload example_nutrients)
     \<and> (''salt'', r) \<in> set values_table
     \<and> found (\<lambda>c. False) (\<lambda>c r. Some c) example_text r \<noteq> []"
proof -
  let ?W = "\<lambda>c::int. False" and ?G = "\<lambda>(c::pystr) (r::OCRRegex). Some c"
  note ev = example_values [of ?W]
  have "\<exists>res. find_nutrient_values ?W ?G example_text = Inr res
      \<and> (res = [] \<longleftrightarrow> (\<forall>(k, r) \<in> set values_table. found ?W ?G example_text r = []))
      \<and> (\<forall>e \<in> set res.
            payload e \<noteq> []
          \<and> (\<forall>k. k \<in> fst ` set (payload e)
                \<longleftrightarrow> (\<exists>r. (k, r) \<in> set values_table \<and> found ?W ?G example_text r \<noteq> []))
          \<and> (\<forall>(k, vs) \<in> set (payload e). vs \<noteq> []))"
    by (rule no_key_without_match [of ?W ?G example_text, THEN conjunct1])
  then obtain res where res: "find_nutrient_values ?W ?G example_text = Inr res"
    and keys: "\<forall>e \<in> set res.
            payload e \<noteq> []
          \<and> (\<forall>k. k \<in> fst ` set (payload e)
                \<longleftrightarrow> (\<exists>r. (k, r) \<in> set values_table \<and> found ?W ?G example_text r \<noteq> []))
          \<and> (\<forall>(k, vs) \<in> set (payload e). vs \<noteq> [])"
    by (elim exE conjE) (rule that, assumption+)
  from res ev have "res = [example_nutrients]" by simp
  with keys have "\<forall>k. k \<in> fst ` set (payload example_nutrients)
        \<longleftrightarrow> (\<exists>r. (k, r) \<in> set values_table \<and> found ?W ?G example_text r \<noteq> [])"
    by simp
  then have iff: "''salt'' \<in> fst ` set (payload example_nutrients)
        \<longleftrightarrow> (\<exists>r. (''salt'', r) \<in> set values_table \<and> found ?W ?G example_text r \<noteq> [])"
    by (rule spec)
  have salt: "''salt'' \<in> fst ` set (payload example_nutrients)"
    by (simp add: example_nutrients_def)
  with iff obtain r where "(''salt'', r) \<in> set values_table"
    "found ?W ?G example_text r \<noteq> []"
    by blast
  with ev salt show ?thesis by blast
qed

text \<open>
  C6.  \<open>find_nutrient_values\<close> and \<open>find_nutrient_mentions\<close> return a sequence of
  length 0 or 1, and an envelope carries the extractor version \<open>"1"\<close>.
\<close>

theorem zero_or_one_envelope:
  "(\<exists>res. find_nutrient_values W get_text content = Inr res
      \<and> length res \<le> 1 \<and> (\<forall>e \<in> set res. version e = ''1''))
   \<and> (\<exists>res. find_nutrient_mentions W get_text content = Inr res
      \<and> length res \<le> 1 \<and> (\<forall>e \<in> set res. version e = ''1''))"
  by (simp add: find_nutrient_values_eq find_nutrient_mentions_eq EXTRACTOR_VERSION_def)

theorem zero_or_one_envelope_witness:
  "find_nutrient_mentions (\<lambda>c. False) (\<lambda>c r. Some c) example_text = Inr [example_mentioned]
   \<and> length [example_mentioned] \<le> 1 \<and> version example_mentioned = ''1''"
proof -
  let ?W = "\<lambda>c::int. False" and ?G = "\<lambda>(c::pystr) (r::OCRRegex). Some c"
  note ev = example_mentions [of ?W]
  have "\<exists>res. find_nutrient_mentions ?W ?G example_text = Inr res
      \<and> length res \<le> 1 \<and> (\<forall>e \<in> set res. version e = ''1'')"
    by (rule zero_or_one_envelope [of ?W ?G example_text, THEN conjunct2])
  then obtain res where res: "find_nutrient_mentions ?W ?G example_text = Inr res"
    and v: "\<forall>e \<in> set res. version e = ''1''"
    by (elim exE conjE) (rule that, assumption+)
  from res ev have "res = [example_mentioned]" by simp
  with v have "version example_mentioned = ''1''" by simp
  with ev show ?thesis by simp
qed

text \<open>
  C9.  The keys of the mapping that \<open>find_nutrient_values\<close> returns are among the
  nine kinds of the unit catalog, so \<open>"nutrition_values"\<close> is never one of them, and
  the \<open>nutrient\<close> field of every value match is the key under which it is listed.
\<close>

theorem value_keys_in_catalog:
  "length (map fst NUTRIENT_UNITS) = 9 \<and> distinct (map fst NUTRIENT_UNITS)
   \<and> (\<exists>res. find_nutrient_values W get_text content = Inr res
      \<and> (\<forall>e \<in> set res.
            fst ` set (payload e) \<subseteq> fst ` set NUTRIENT_UNITS
          \<and> ''nutrition_values'' \<notin> fst ` set (payload e)
          \<and> (\<forall>(k, vs) \<in> set (payload e). \<forall>v \<in> set vs. vm_nutrient v = k)))"
proof -
  let ?V = "value_entries W get_text content values_table"
  have "set (map fst values_table) = set (map fst NUTRIENT_UNITS)"
    by (simp only: values_table_keys)
  then have keys: "fst ` set values_table = fst ` set NUTRIENT_UNITS"
    by (simp only: set_map)
  have sub: "fst ` set ?V \<subseteq> fst ` set NUTRIENT_UNITS"
    using value_entries_keys [of W get_text content values_table] keys by simp
  have "''nutrition_values'' \<notin> set (map fst NUTRIENT_UNITS)"
    by (simp add: units_keys)
  then have "''nutrition_values'' \<notin> fst ` set NUTRIENT_UNITS"
    by simp
  with sub have nv: "''nutrition_values'' \<notin> fst ` set ?V" by blast
  have nut: "\<forall>(k, vs) \<in> set ?V. \<forall>v \<in> set vs. vm_nutrient v = k"
    by (auto simp: value_entries_mem value_match_of_def)
  have a: "length (map fst NUTRIENT_UNITS) = 9" and b: "distinct (map fst NUTRIENT_UNITS)"
    by (simp_all add: units_keys)
  have c: "\<exists>res. find_nutrient_values W get_text content = Inr res
      \<and> (\<forall>e \<in> set res.
            fst ` set (payload e) \<subseteq> fst ` set NUTRIENT_UNITS
          \<and> ''nutrition_values'' \<notin> fst ` set (payload e)
          \<and> (\<forall>(k, vs) \<in> set (payload e). \<forall>v \<in> set vs. vm_nutrient v = k))"
    unfolding find_nutrient_values_eq using sub nv nut by simp
  from a b c show ?thesis by (intro conjI)
qed

theorem value_keys_in_catalog_witness:
  "find_nutrient_values (\<lambda>c. False) (\<lambda>c r. Some c) example_text = Inr [example_nutrients]
   \<and> map fst (payload example_nutrients) = [''energy'', ''protein'', ''salt'']
   \<and> ''nutrition_values'' \<notin> fst ` set (payload example_nutrients)
   \<and> map (map vm_nutrient \<circ> snd) (payload example_nutrients)
       = [[''energy''], [''protein''], [''salt'']]"
proof -
  let ?W = "\<lambda>c::int. False" and ?G = "\<lambda>(c::pystr) (r::OCRRegex). Some c"
  note ev = example_values [of ?W]
  have "\<exists>res. find_nutrient_values ?W ?G example_text = Inr res
      \<and> (\<forall>e \<in> set res.
            fst ` set (payload e) \<subseteq> fst ` set NUTRIENT_UNITS
          \<and> ''nutrition_values'' \<notin> fst ` set (payload e)
          \<and> (\<forall>(k, vs) \<in> set (payload e). \<forall>v \<in> set vs. vm_nutrient v = k))"
    by (rule value_keys_in_catalog [of ?W ?G example_text, THEN conjunct2, THEN conjunct2])
  then obtain res where res: "find_nutrient_values ?W ?G example_text = Inr res"
    and k: "\<forall>e \<in> set res.
            fst ` set (payload e) \<subseteq> fst ` set NUTRIENT_UNITS
          \<and> ''nutrition_values'' \<notin> fst ` set (payload e)
          \<and> (\<forall>(k, vs) \<in> set (payload e). \<forall>v \<in> set vs. vm_nutrient v = k)"
    by (elim exE conjE) (rule that, assumption+)
  from res ev have "res = [example_nutrients]" by simp
  with k have "''nutrition_values'' \<notin> fst ` set (payload example_nutrients)" by simp
  moreover have "map fst (payload example_nutrients) = [''energy'', ''protein'', ''salt'']"
    "map (map vm_nutrient \<circ> snd) (payload example_nutrients)
       = [[''energy''], [''protein''], [''salt'']]"
    by (simp_all add: example_nutrients_def)
  ultimately show ?thesis using ev by simp
qed

text \<open>
  C5.  For every mention match that \<open>find_nutrient_mentions\<close> returns, the span is a
  pair of offsets \<open>start \<le> end\<close> into the text that was searched for its kind, and the
  substring of that text at \<open>[start, end)\<close> is the \<open>raw\<close> field.
\<close>

theorem mention_span_is_raw:
  "\<exists>res. find_nutrient_mentions W get_text content = Inr res
     \<and> (\<forall>e \<in> set res. \<forall>(k, ms) \<in> set (payload e).
           \<exists>r t. (k, r) \<in> set mentions_table \<and> get_text content r = Some t
             \<and> (\<forall>mm \<in> set ms. \<exists>a b. mm_span mm = [a, b] \<and> a \<le> b \<and> b \<le> length t
                   \<and> slice t a b = mm_raw mm))"
proof -
  let ?M = "mention_entries W get_text content mentions_table"
  have "\<exists>r t. (k, r) \<in> set mentions_table \<and> get_text content r = Some t
             \<and> (\<forall>mm \<in> set ms. \<exists>a b. mm_span mm = [a, b] \<and> a \<le> b \<and> b \<le> length t
                   \<and> slice t a b = mm_raw mm)"
    if "(k, ms) \<in> set ?M" for k ms
  proof -
    from that obtain r where r: "(k, r) \<in> set mentions_table"
      and f: "found W get_text content r \<noteq> []"
      and ms: "ms = map (mention_match_of (searched_text get_text content r))
                 (found W get_text content r)"
      unfolding mention_entries_mem by blast
    from f obtain t where t: "get_text content r = Some t"
      and ft: "found W get_text content r = finditer (regex r) W t"
      and st: "searched_text get_text content r = t"
      by (rule found_Some)
    have "\<exists>a b. mm_span mm = [a, b] \<and> a \<le> b \<and> b \<le> length t \<and> slice t a b = mm_raw mm"
      if "mm \<in> set ms" for mm
    proof -
      from that ms ft st obtain m where m: "m \<in> set (finditer (regex r) W t)"
        and mm: "mm = mention_match_of t m"
        by auto
      from finditer_span [OF m] mm show ?thesis
        by (simp add: mention_match_of_def group0_def)
    qed
    with r t show ?thesis by blast
  qed
  then have "\<forall>(k, ms) \<in> set ?M.
           \<exists>r t. (k, r) \<in> set mentions_table \<and> get_text content r = Some t
             \<and> (\<forall>mm \<in> set ms. \<exists>a b. mm_span mm = [a, b] \<and> a \<le> b \<and> b \<le> length t
                   \<and> slice t a b = mm_raw mm)"
    by blast
  then show ?thesis
    unfolding find_nutrient_mentions_eq by simp
qed

theorem mention_span_is_raw_witness:
  "find_nutrient_mentions (\<lambda>c. False) (\<lambda>c r. Some c) example_text = Inr [example_mentioned]
   \<and> (''salt'', [\<lparr>mm_raw = str ''sel'', mm_span = [29, 32]\<rparr>]) \<in> set (payload example_mentioned)
   \<and> slice example_text 29 32 = str ''sel''"
proof -
  let ?W = "\<lambda>c::int. False" and ?G = "\<lambda>(c::pystr) (r::OCRRegex). Some c"
  let ?mm = "\<lparr>mm_raw = str ''sel'', mm_span = [29, 32]\<rparr>"
  note ev = example_mentions [of ?W]
  from mention_span_is_raw [of ?W ?G example_text]
  obtain res where res: "find_nutrient_mentions ?W ?G example_text = Inr res"
    and sp: "\<forall>e \<in> set res. \<forall>(k, ms) \<in> set (payload e).
           \<exists>r t. (k, r) \<in> set mentions_table \<and> ?G example_text r = Some t
             \<and> (\<forall>mm \<in> set ms. \<exists>a b. mm_span mm = [a, b] \<and> a \<le> b \<and> b \<le> length t
                   \<and> slice t a b = mm_raw mm)"
    by (elim exE conjE) (rule that, assumption+)
  from res ev have r1: "res = [example_mentioned]" by simp
  have mem: "(''salt'', [?mm]) \<in> set (payload example_mentioned)"
    by (simp add: example_mentioned_def)
  from sp r1 have "\<forall>(k, ms) \<in> set (payload example_mentioned).
           \<exists>r t. (k, r) \<in> set mentions_table \<and> ?G example_text r = Some t
             \<and> (\<forall>mm \<in> set ms. \<exists>a b. mm_span mm = [a, b] \<and> a \<le> b \<and> b \<le> length t
                   \<and> slice t a b = mm_raw mm)"
    by simp
  from bspec [OF this mem]
  obtain t where t: "Some example_text = Some t"
    and all: "\<forall>mm \<in> set [?mm]. \<exists>a b. mm_span mm = [a, b] \<and> a \<le> b \<and> b \<le> length t
                   \<and> slice t a b = mm_raw mm"
    by auto
  from all obtain a b where "mm_span ?mm = [a, b]" "slice t a b = mm_raw ?mm"
    by auto
  with t have "slice example_text 29 32 = str ''sel''" by simp
  with ev mem show ?thesis by simp
qed

text \<open>
  C3.  For every value match that \<open>find_nutrient_values\<close> returns, the \<open>value\<close> field
  is the captured number (group 2 of a match of that kind's matcher, a string of the
  form \<open>digits[,.]?digits*\<close>) with every \<open>,\<close> replaced by \<open>.\<close>, and it has the form
  \<open>^[0-9]+\.?[0-9]*$\<close>.
\<close>

theorem value_is_decimal:
  "\<exists>res. find_nutrient_values W get_text content = Inr res
     \<and> (\<forall>e \<in> set res. \<forall>(k, vs) \<in> set (payload e). \<forall>v \<in> set vs.
           decimal_string (vm_value v)
         \<and> (\<exists>r t m g. (k, r) \<in> set values_table \<and> get_text content r = Some t
               \<and> m \<in> set (finditer (regex r) W t) \<and> group t m 2 = Some g
               \<and> number_string g \<and> vm_raw v = group0 t m \<and> vm_value v = replace 44 46 g))"
proof -
  let ?V = "value_entries W get_text content values_table"
  have "decimal_string (vm_value v)
         \<and> (\<exists>r t m g. (k, r) \<in> set values_table \<and> get_text content r = Some t
               \<and> m \<in> set (finditer (regex r) W t) \<and> group t m 2 = Some g
               \<and> number_string g \<and> vm_raw v = group0 t m \<and> vm_value v = replace 44 46 g)"
    if kv: "(k, vs) \<in> set ?V" and v: "v \<in> set vs" for k vs v
  proof -
    from kv obtain r where r: "(k, r) \<in> set values_table"
      and f: "found W get_text content r \<noteq> []"
      and vs: "vs = map (value_match_of k (searched_text get_text content r))
                 (found W get_text content r)"
      unfolding value_entries_mem by blast
    from f obtain t where t: "get_text content r = Some t"
      and ft: "found W get_text content r = finditer (regex r) W t"
      and st: "searched_text get_text content r = t"
      by (rule found_Some)
    from v vs ft st obtain m where m: "m \<in> set (finditer (regex r) W t)"
      and vm: "v = value_match_of k t m"
      by auto
    from r obtain U T where re: "regex r = value_re U T" and T: "groups T = []"
      by (rule values_table_regex)
    from finditer_value_re(2) [of m U T W t] m re T
    obtain g where g: "group t m 2 = Some g" "number_string g"
      "decimal_string (replace 44 46 g)"
      by auto
    from g vm have "vm_value v = replace 44 46 g" "vm_raw v = group0 t m"
      by (simp_all add: value_match_of_def)
    with g r t m show ?thesis by auto
  qed
  then have "\<forall>(k, vs) \<in> set ?V. \<forall>v \<in> set vs.
           decimal_string (vm_value v)
         \<and> (\<exists>r t m g. (k, r) \<in> set values_table \<and> get_text content r = Some t
               \<and> m \<in> set (finditer (regex r) W t) \<and> group t m 2 = Some g
               \<and> number_string g \<and> vm_raw v = group0 t m \<and> vm_value v = replace 44 46 g)"
    by blast
  then show ?thesis
    unfolding find_nutrient_values_eq by simp
qed

theorem value_is_decimal_witness:
  "find_nutrient_values (\<lambda>c. False) (\<lambda>c r. Some c) example_text = Inr [example_nutrients]
   \<and> decimal_string (str ''0.1'')
   \<and> (\<exists>g. number_string g \<and> str ''0.1'' = replace 44 46 g)"
proof -
  let ?W = "\<lambda>c::int. False" and ?G = "\<lambda>(c::pystr) (r::OCRRegex). Some c"
  let ?v = "\<lparr>vm_raw = str ''sel 0,1g'', vm_nutrient = ''salt'',
             vm_value = str ''0.1'', vm_unit = Some (str ''g'')\<rparr>"
  note ev = example_values [of ?W]
  from value_is_decimal [of ?W ?G example_text]
  obtain res where res: "find_nutrient_values ?W ?G example_text = Inr res"
    and dec: "\<forall>e \<in> set res. \<forall>(k, vs) \<in> set (payload e). \<forall>v \<in> set vs.
           decimal_string (vm_value v)
         \<and> (\<exists>r t m g. (k, r) \<in> set values_table \<and> ?G example_text r = Some t
               \<and> m \<in> set (finditer (regex r) ?W t) \<and> group t m 2 = Some g
               \<and> number_string g \<and> vm_raw v = group0 t m \<and> vm_value v = replace 44 46 g)"
    by (elim exE conjE) (rule that, assumption+)
  from res ev have r1: "res = [example_nutrients]" by simp
  have mem: "(''salt'', [?v]) \<in> set (payload example_nutrients)"
    by (simp add: example_nutrients_def)
  from dec r1 have "\<forall>(k, vs) \<in> set (payload example_nutrients). \<forall>v \<in> set vs.
           decimal_string (vm_value v)
         \<and> (\<exists>r t m g. (k, r) \<in> set values_table \<and> ?G example_text r = Some t
               \<and> m \<in> set (finditer (regex r) ?W t) \<and> group t m 2 = Some g
               \<and> number_string g \<and> vm_raw v = group0 t m \<and> vm_value v = replace 44 46 g)"
    by simp
  from bspec [OF this mem]
  have "decimal_string (vm_value ?v)
      \<and> (\<exists>g. number_string g \<and> vm_value ?v = replace 44 46 g)"
    by auto
  with ev show ?thesis by simp
qed

definition conseil_text :: pystr where
  "conseil_text = str ''conseil d'' @ [39] @ str ''utilisation''"

lemma conseil_no_match:
  "list_all (\<lambda>(k, r). finditer (regex r) W conseil_text = []) (values_table @ mentions_table)"
  by code_simp

lemma example_salt_mention:
  "map (\<lambda>(k, r). map (\<lambda>m. (m_start m, m_end m)) (finditer (regex r) W example_text))
     (filter (\<lambda>(k, r). k = ''salt'') mentions_table) = [[(29, 32)]]"
  by code_simp

text \<open>
  C4.  Whatever text is searched, a match that a value matcher or a mention matcher
  of the module reports lies inside the text, the character before its start (if
  there is one) is no word character and the character at its end (if there is one)
  is no word character.  The salt matchers find no match in
  \<open>"conseil d'utilisation"\<close>.
\<close>

theorem boundary_exclusion:
  "(\<forall>(k, r) \<in> set values_table \<union> set mentions_table.
      \<forall>m \<in> set (finditer (regex r) W t).
        m_start m \<le> m_end m \<and> m_end m \<le> length t
      \<and> (m_start m = 0 \<or> \<not> is_word W (t ! (m_start m - 1)))
      \<and> (m_end m = length t \<or> \<not> is_word W (t ! m_end m)))
   \<and> (\<forall>(k, r) \<in> set values_table \<union> set mentions_table.
        k = ''salt'' \<longrightarrow> finditer (regex r) W conseil_text = [])"
proof (intro conjI)
  have "bounded_match W t m"
    if "(k, r) \<in> set values_table \<union> set mentions_table" "m \<in> set (finditer (regex r) W t)"
    for k r m
  proof -
    from that(1) consider "(k, r) \<in> set values_table" | "(k, r) \<in> set mentions_table"
      by blast
    then show ?thesis
    proof cases
      case 1
      then obtain U T where "regex r = value_re U T" "groups T = []"
        by (rule values_table_regex)
      with finditer_value_re(1) [of m U T W t] that(2) show ?thesis by simp
    next
      case 2
      then obtain U where "regex r = mention_re U"
        by (rule mentions_table_regex)
      with finditer_mention_re [of m U W t] that(2) show ?thesis by simp
    qed
  qed
  then show "\<forall>(k, r) \<in> set values_table \<union> set mentions_table.
      \<forall>m \<in> set (finditer (regex r) W t).
        m_start m \<le> m_end m \<and> m_end m \<le> length t
      \<and> (m_start m = 0 \<or> \<not> is_word W (t ! (m_start m - 1)))
      \<and> (m_end m = length t \<or> \<not> is_word W (t ! m_end m))"
    unfolding bounded_match_def by blast
next
  from conseil_no_match [of W]
  have "\<forall>(k, r) \<in> set (values_table @ mentions_table). finditer (regex r) W conseil_text = []"
    by (simp only: list_all_iff)
  then show "\<forall>(k, r) \<in> set values_table \<union> set mentions_table.
        k = ''salt'' \<longrightarrow> finditer (regex r) W conseil_text = []"
    by auto
qed

theorem boundary_exclusion_witness:
  "\<exists>r m. (''salt'', r) \<in> set mentions_table
     \<and> m \<in> set (finditer (regex r) (\<lambda>c. False) example_text)
     \<and> m_start m = 29 \<and> m_end m = 32
     \<and> \<not> is_word (\<lambda>c. False) (example_text ! 28)
     \<and> \<not> is_word (\<lambda>c. False) (example_text ! 32)"
proof -
  let ?W = "\<lambda>c::int. False"
  from example_salt_mention [of ?W]
  obtain e where e: "filter (\<lambda>(k, r). k = ''salt'') mentions_table = [e]"
    and sp: "(case e of (k, r) \<Rightarrow> map (\<lambda>m. (m_start m, m_end m)) (finditer (regex r) ?W example_text))
               = [(29, 32)]"
    by (auto simp: map_eq_Cons_conv)
  obtain k r where kr: "e = (k, r)" by (cases e)
  have "e \<in> set (filter (\<lambda>(k, r). k = ''salt'') mentions_table)" using e by simp
  with kr have r: "(''salt'', r) \<in> set mentions_table" by auto
  from sp kr obtain m where m: "finditer (regex r) ?W example_text = [m]"
    and se: "m_start m = 29" "m_end m = 32"
    by (auto simp: map_eq_Cons_conv)
  have mem: "m \<in> set (finditer (regex r) ?W example_text)" using m by simp
  have len: "length example_text = 37" by (simp add: example_text_def str_def)
  have "\<forall>(k, r) \<in> set values_table \<union> set mentions_table.
      \<forall>m \<in> set (finditer (regex r) ?W example_text).
        m_start m \<le> m_end m \<and> m_end m \<le> length example_text
      \<and> (m_start m = 0 \<or> \<not> is_word ?W (example_text ! (m_start m - 1)))
      \<and> (m_end m = length example_text \<or> \<not> is_word ?W (example_text ! m_end m))"
    by (rule boundary_exclusion [of ?W example_text, THEN conjunct1])
  with r mem have "(m_start m = 0 \<or> \<not> is_word ?W (example_text ! (m_start m - 1)))
      \<and> (m_end m = length example_text \<or> \<not> is_word ?W (example_text ! m_end m))"
    by blast
  with se len have "\<not> is_word ?W (example_text ! 28)" "\<not> is_word ?W (example_text ! 32)"
    by simp_all
  with r mem se show ?thesis by blast
qed

lemma build_values_regex_entries:
  "build_values_regex M catalog = Inr tbl \<Longrightarrow>
     list_all2 (\<lambda>e u. fst e = fst u
        \<and> (\<exists>ms. map_of M (fst u) = Some ms
              \<and> generate_nutrient_regex ms (snd u) = Some (regex (snd e)))) tbl catalog"
proof (induction catalog arbitrary: tbl)
  case Nil
  then show ?case by simp
next
  case (Cons u catalog)
  obtain k us where u: "u = (k, us)" by (cases u)
  from Cons.prems u obtain ms r tbl' where
    ms: "map_of M k = Some ms" and r: "generate_nutrient_regex ms us = Some r"
    and rest: "build_values_regex M catalog = Inr tbl'"
    and tbl: "tbl = (k, \<lparr>regex = r, field = full_text_contiguous, lowercase = True\<rparr>) # tbl'"
    by (auto split: option.splits sum.splits)
  from Cons.IH [OF rest] ms r tbl u show ?case by simp
qed

section \<open>The value matcher as the specification describes it\<close>

text \<open>
  The pattern described in words, put together from its parts: the union of the
  mention fragments after a look-behind for a word character, a separator, the
  captured number, an optional space, and the captured union of the unit tokens
  before a look-ahead for a word character.
\<close>

definition optional_space :: regex where
  "optional_space = Opt (Lit 32)"

definition colon_or_dash :: regex where
  "colon_or_dash = In [(58, 58), (45, 45)]"

definition described_number :: regex where
  "described_number = Seq (Plus digit_set) (Seq (Opt (In [(44, 44), (46, 46)])) (Star digit_set))"

text \<open>
  The separator, in three readings.  "An optional separator, \<open>:\<close> or \<open>-\<close> optionally
  surrounded by spaces": the separator with its spaces is there or not
  (\<open>separator_as_written\<close>); or each of the space before, the sign and the space
  after is there or not (\<open>separator_spaces_free\<close>).  The pattern of the code: an
  optional space, then optionally the sign with an optional space after it
  (\<open>separator_of_code\<close>).
\<close>

definition separator_as_written :: regex where
  "separator_as_written = Opt (Seq optional_space (Seq colon_or_dash optional_space))"

definition separator_spaces_free :: regex where
  "separator_spaces_free = Seq optional_space (Seq (Opt colon_or_dash) optional_space)"

definition separator_of_code :: regex where
  "separator_of_code = Seq optional_space (Opt (Seq colon_or_dash optional_space))"

definition described_tail :: "regex \<Rightarrow> regex \<Rightarrow> regex" where
  "described_tail sep T =
     Seq sep
       (Seq (Group 2 described_number)
         (Seq optional_space
           (Seq (Group 3 T) (AssertNot False WordChar))))"

definition described_value_matcher :: "regex \<Rightarrow> regex list \<Rightarrow> pystr list \<Rightarrow> regex" where
  "described_value_matcher sep mentions units =
     Seq (Seq (AssertNot True WordChar) (branches mentions))
       (described_tail sep (branches (map literal units)))"

lemma value_tail_described:
  "rmatch (value_tail T) W t s = rmatch (described_tail separator_of_code T) W t s"
proof -
  have opt: "rmatch (Opt (Seq colon_or_dash (Seq optional_space Empty))) W t u
      = rmatch (Opt (Seq colon_or_dash optional_space)) W t u" for u
    by (intro rmatch_Opt_cong rmatch_Seq_cong rmatch_Seq_Empty refl)
  have num: "rmatch (Group 2 number_re) W t u = rmatch (Group 2 described_number) W t u" for u
    unfolding number_re_def described_number_def
    by (intro rmatch_Group_cong rmatch_Seq_cong rmatch_Seq_Empty refl)
  have ahead: "rmatch (Seq not_ahead_word Empty) W t u = rmatch (AssertNot False WordChar) W t u" for u
    unfolding not_ahead_word_def by (simp only: rmatch_Seq_Empty rmatch_word_anchor)
  have "rmatch (value_tail T) W t s
      = rmatch (Seq optional_space
          (Seq (Opt (Seq colon_or_dash optional_space))
            (Seq (Group 2 described_number)
              (Seq optional_space
                (Seq (Group 3 T) (AssertNot False WordChar)))))) W t s"
    unfolding value_tail_def optional_space_def [symmetric] colon_or_dash_def [symmetric]
    by (intro rmatch_Seq_cong opt num ahead refl)
  also have "\<dots> = rmatch (described_tail separator_of_code T) W t s"
    unfolding described_tail_def separator_of_code_def by (rule rmatch_Seq_assoc [symmetric])
  finally show ?thesis .
qed

lemma rmatch_AssertNot_cases:
  "rmatch (AssertNot b a) W t s = [] \<or> rmatch (AssertNot b a) W t s = [s]"
  by (simp split: option.splits)

lemma value_re_described:
  assumes "1 \<notin> set (groups T)"
  shows "map state_observed (rmatch (value_re U T) W t s)
      = map state_observed
          (rmatch (Seq (Seq (AssertNot True WordChar) U) (described_tail separator_of_code T)) W t s)"
proof -
  let ?R = "rmatch (value_tail T) W t"
  have g: "1 \<notin> set (groups (value_tail T))"
    using assms by (simp add: value_tail_def number_re_def digit_set_def not_ahead_word_def)
  have tail: "rmatch (described_tail separator_of_code T) W t = ?R"
    by (rule ext) (rule value_tail_described [symmetric])
  have behind: "rmatch not_behind_word W t s = rmatch (AssertNot True WordChar) W t s"
    unfolding not_behind_word_def by (rule rmatch_word_anchor)
  have obs: "map state_observed (?R (setcap 1 v u)) = map state_observed (?R u)" for v u
  proof -
    have "state_observed \<circ> setcap 1 v = state_observed"
      by (rule ext) (simp add: state_observed_def)
    then show ?thesis by (simp only: rmatch_setcap [OF g] map_map)
  qed
  have grp: "rmatch (Group 1 U) W t u
      = map (\<lambda>s'. setcap 1 (Some (pos u, pos s')) s') (rmatch U W t u)" for u
    by (simp add: setcap_def)
  have inner: "map state_observed (concat (map ?R (rmatch (Group 1 U) W t u)))
      = map state_observed (concat (map ?R (rmatch U W t u)))" for u
    by (simp only: grp map_map map_concat comp_def obs)
  consider "rmatch (AssertNot True WordChar) W t s = []"
    | "rmatch (AssertNot True WordChar) W t s = [s]"
    using rmatch_AssertNot_cases [of True WordChar W t s] by blast
  then show ?thesis
  proof cases
    case 1
    with behind show ?thesis by (simp add: value_re_def)
  next
    case 2
    with behind have "rmatch (value_re U T) W t s = concat (map ?R (rmatch (Group 1 U) W t s))"
      by (simp add: value_re_def del: rmatch.simps(10))
    moreover from 2 have "rmatch (Seq (Seq (AssertNot True WordChar) U)
        (described_tail separator_of_code T)) W t s = concat (map ?R (rmatch U W t s))"
      by (simp add: tail del: rmatch.simps(11))
    ultimately show ?thesis using inner [of s] by simp
  qed
qed

lemma salt_described_eval:
  "(case map_of NUTRIENT_MENTION ''salt'' of
      None \<Rightarrow> False
    | Some ms \<Rightarrow>
        (case compile_fragments ms of
           None \<Rightarrow> False
         | Some Us \<Rightarrow>
             map observed
               (finditer (described_value_matcher separator_of_code Us [str ''g''])
                  (\<lambda>c. False) (str ''sel 0,1g''))
               = [(0, 8, Some (4, 7), Some (7, 8))]))"
  by code_simp

text \<open>
  C1, as the code has it.  For every kind of the unit catalog, the pattern that
  \<open>generate_nutrient_regex\<close> builds compiles, and on every text it finds the same
  matches, with the same captured number and the same captured unit, as the pattern
  put together from: the union of the kind's mention fragments (each compiled on its
  own) after a look-behind for a word character; an optional space; optionally \<open>:\<close>
  or \<open>-\<close> with an optional space after it; the captured number
  \<open>digits[,.]?digits*\<close>; an optional space; the captured union of the kind's unit
  tokens before a look-ahead for a word character.
\<close>

theorem value_matcher_as_described:
  "\<forall>(k, units) \<in> set NUTRIENT_UNITS.
     \<exists>ms Us r. map_of NUTRIENT_MENTION k = Some ms \<and> compile_fragments ms = Some Us
       \<and> generate_nutrient_regex ms units = Some r
       \<and> (\<exists>e \<in> set values_table. fst e = k \<and> regex (snd e) = r)
       \<and> (\<forall>W t. map observed (finditer r W t)
             = map observed
                 (finditer (described_value_matcher separator_of_code Us units) W t))"
proof (intro ballI, clarify)
  fix k units assume "(k, units) \<in> set NUTRIENT_UNITS"
  then obtain i where i: "i < length NUTRIENT_UNITS" and at: "NUTRIENT_UNITS ! i = (k, units)"
    by (auto simp: in_set_conv_nth)
  let ?e = "values_table ! i"
  from list_all2_nthD2 [OF values_table_ok i] at
  have ok: "value_entry_ok ?e (k, units)" by simp
  then obtain Us where fr: "fragments_of k = Some Us"
    and re: "regex (snd ?e) = value_re (branches Us) (branches (map literal units))"
    by (auto simp: value_entry_ok_def split: option.splits)
  have "build_values_regex NUTRIENT_MENTION NUTRIENT_UNITS = Inr values_table"
    using values_table_Inr by (simp add: NUTRIENT_VALUES_REGEX_def)
  from list_all2_nthD2 [OF build_values_regex_entries [OF this] i] at
  obtain ms where ms: "map_of NUTRIENT_MENTION k = Some ms"
    and gen: "generate_nutrient_regex ms units = Some (regex (snd ?e))"
    by auto
  from fr ms have cf: "compile_fragments ms = Some Us"
    by (simp add: fragments_of_def)
  have "groups (branches (map literal units)) = []"
    by (rule groups_branches) (auto simp: groups_literal)
  then have g1: "1 \<notin> set (groups (branches (map literal units)))" by simp
  have "map observed (finditer (regex (snd ?e)) W t)
      = map observed (finditer (described_value_matcher separator_of_code Us units) W t)"
    for W t
    unfolding re described_value_matcher_def
    by (rule finditer_observed) (rule value_re_described [OF g1])
  then have "\<forall>W t. map observed (finditer (regex (snd ?e)) W t)
      = map observed (finditer (described_value_matcher separator_of_code Us units) W t)"
    by blast
  moreover have "\<exists>e \<in> set values_table. fst e = k \<and> regex (snd e) = regex (snd ?e)"
  proof -
    from list_all2_lengthD [OF values_table_ok] i have "?e \<in> set values_table" by simp
    moreover from ok have "fst ?e = k"
      by (auto simp: value_entry_ok_def split: option.splits)
    ultimately show ?thesis by blast
  qed
  ultimately
  show "\<exists>ms Us r. map_of NUTRIENT_MENTION k = Some ms \<and> compile_fragments ms = Some Us
       \<and> generate_nutrient_regex ms units = Some r
       \<and> (\<exists>e \<in> set values_table. fst e = k \<and> regex (snd e) = r)
       \<and> (\<forall>W t. map observed (finditer r W t)
             = map observed
                 (finditer (described_value_matcher separator_of_code Us units) W t))"
    using ms cf gen by blast
qed

theorem value_matcher_as_described_witness:
  "\<exists>ms Us r. map_of NUTRIENT_MENTION ''salt'' = Some ms \<and> compile_fragments ms = Some Us
     \<and> generate_nutrient_regex ms [str ''g''] = Some r
     \<and> map observed (finditer r (\<lambda>c. False) (str ''sel 0,1g''))
         = [(0, 8, Some (4, 7), Some (7, 8))]"
proof -
  have mem: "(''salt'', [str ''g'']) \<in> set NUTRIENT_UNITS"
    by (simp add: NUTRIENT_UNITS_def)
  from bspec [OF value_matcher_as_described mem]
  obtain ms Us r where ms: "map_of NUTRIENT_MENTION ''salt'' = Some ms"
    and cf: "compile_fragments ms = Some Us"
    and gen: "generate_nutrient_regex ms [str ''g''] = Some r"
    and same: "\<forall>W t. map observed (finditer r W t)
             = map observed
                 (finditer (described_value_matcher separator_of_code Us [str ''g'']) W t)"
    by auto
  from salt_described_eval ms cf
  have "map observed
      (finditer (described_value_matcher separator_of_code Us [str ''g''])
         (\<lambda>c. False) (str ''sel 0,1g''))
      = [(0, 8, Some (4, 7), Some (7, 8))]"
    by simp
  with same have "map observed (finditer r (\<lambda>c. False) (str ''sel 0,1g''))
      = [(0, 8, Some (4, 7), Some (7, 8))]"
    by simp
  with ms cf gen have "map_of NUTRIENT_MENTION ''salt'' = Some ms \<and> compile_fragments ms = Some Us
     \<and> generate_nutrient_regex ms [str ''g''] = Some r
     \<and> map observed (finditer r (\<lambda>c. False) (str ''sel 0,1g''))
         = [(0, 8, Some (4, 7), Some (7, 8))]"
    by (intro conjI)
  then show ?thesis by (intro exI)
qed

text \<open>
  C1, as it is worded, fails for the salt matcher.  The code finds \<open>"sel 0,1g"\<close>,
  a single space and no sign between mention and number, where the pattern with the
  separator as written finds nothing; and the code finds nothing in \<open>"sel  0,1g"\<close>,
  two spaces and no sign, where the pattern whose spaces are optional on their own
  finds a match.
\<close>

theorem value_matcher_as_described_counterexample:
  "(case map_of NUTRIENT_MENTION ''salt'' of
      None \<Rightarrow> False
    | Some ms \<Rightarrow>
        (case (compile_fragments ms, generate_nutrient_regex ms [str ''g'']) of
           (Some Us, Some r) \<Rightarrow>
               map observed (finditer r (\<lambda>c. False) (str ''sel 0,1g''))
                 = [(0, 8, Some (4, 7), Some (7, 8))]
             \<and> finditer (described_value_matcher separator_as_written Us [str ''g''])
                 (\<lambda>c. False) (str ''sel 0,1g'') = []
             \<and> finditer r (\<lambda>c. False) (str ''sel  0,1g'') = []
             \<and> map observed
                 (finditer (described_value_matcher separator_spaces_free Us [str ''g''])
                    (\<lambda>c. False) (str ''sel  0,1g''))
                 = [(0, 9, Some (5, 8), Some (8, 9))]
         | _ \<Rightarrow> False))"
  by code_simp

lemma build_values_regex_missing:
  "k \<in> fst ` set catalog \<Longrightarrow> map_of M k = None \<Longrightarrow> \<exists>e. build_values_regex M catalog = Inl e"
proof (induction catalog)
  case Nil
  then show ?case by simp
next
  case (Cons u catalog)
  obtain k' us where u: "u = (k', us)" by (cases u)
  show ?case
  proof (cases "map_of M k'")
    case None
    then show ?thesis by (simp add: u)
  next
    case (Some ms)
    with Cons.prems have "k \<noteq> k'" by auto
    with Cons.prems u have "k \<in> fst ` set catalog" by auto
    from Cons.IH [OF this Cons.prems(2)] obtain e where "build_values_regex M catalog = Inl e" ..
    with Some show ?thesis by (simp add: u split: option.splits)
  qed
qed

text \<open>
  C7.  Every kind of the unit catalog is a kind of the mention dictionary, and with
  these two tables the module is imported without error.  For any two tables of
  which the catalog has a kind that the dictionary lacks, the import of the module
  raises, and a call of either extractor on such a module, with whatever content,
  is that error: no extraction call is served.
\<close>

theorem catalog_kinds_are_mentioned:
  "set (map fst NUTRIENT_UNITS) \<subseteq> set (map fst NUTRIENT_MENTION)
   \<and> import_module NUTRIENT_MENTION NUTRIENT_UNITS = Inr (values_table, mentions_table)
   \<and> (\<forall>M catalog. \<not> set (map fst catalog) \<subseteq> set (map fst M) \<longrightarrow>
         (\<exists>e. import_module M catalog = Inl e
            \<and> (\<forall>W get_text content.
                   find_nutrient_values_in (import_module M catalog) W get_text content = Inl e
                 \<and> find_nutrient_mentions_in (import_module M catalog) W get_text content = Inl e)))"
proof (intro conjI allI impI)
  show "set (map fst NUTRIENT_UNITS) \<subseteq> set (map fst NUTRIENT_MENTION)"
    by (simp add: units_keys mention_keys)
  show "import_module NUTRIENT_MENTION NUTRIENT_UNITS = Inr (values_table, mentions_table)"
    by (rule import_module_tables)
next
  fix M :: "(string \<times> NutrientMentionType list) list" and catalog :: "(string \<times> pystr list) list"
  assume "\<not> set (map fst catalog) \<subseteq> set (map fst M)"
  then obtain k where k: "k \<in> fst ` set catalog" "k \<notin> fst ` set M" by auto
  from k(2) have "map_of M k = None" by (simp add: map_of_eq_None_iff)
  from build_values_regex_missing [OF k(1) this]
  obtain e where "build_values_regex M catalog = Inl e" ..
  then have e: "import_module M catalog = Inl e"
    by (simp add: import_module_def)
  then have "\<forall>W get_text content.
      find_nutrient_values_in (import_module M catalog) W get_text content = Inl e
    \<and> find_nutrient_mentions_in (import_module M catalog) W get_text content = Inl e"
    by (simp add: find_nutrient_values_in_def find_nutrient_mentions_in_def)
  with e show "\<exists>e. import_module M catalog = Inl e
            \<and> (\<forall>W get_text content.
                   find_nutrient_values_in (import_module M catalog) W get_text content = Inl e
                 \<and> find_nutrient_mentions_in (import_module M catalog) W get_text content = Inl e)"
    by blast
qed

definition short_dictionary :: "(string \<times> NutrientMentionType list) list" where
  "short_dictionary = [(''salt'', [(str ''sel'', [''fr''])])]"

definition long_catalog :: "(string \<times> pystr list) list" where
  "long_catalog = [(''salt'', [str ''g'']), (''vitamin_c'', [str ''mg''])]"

lemma short_dictionary_build:
  "build_values_regex short_dictionary long_catalog = Inl (KeyError ''vitamin_c'')"
  by code_simp

theorem catalog_kinds_are_mentioned_witness:
  "\<not> set (map fst long_catalog) \<subseteq> set (map fst short_dictionary)
   \<and> import_module short_dictionary long_catalog = Inl (KeyError ''vitamin_c'')
   \<and> find_nutrient_values_in (import_module short_dictionary long_catalog)
        (\<lambda>c. False) (\<lambda>c r. Some c) example_text = Inl (KeyError ''vitamin_c'')
   \<and> find_nutrient_mentions_in (import_module short_dictionary long_catalog)
        (\<lambda>c. False) (\<lambda>c r. Some c) example_text = Inl (KeyError ''vitamin_c'')"
proof -
  have viol: "\<not> set (map fst long_catalog) \<subseteq> set (map fst short_dictionary)"
    by (simp add: long_catalog_def short_dictionary_def)
  have "\<forall>M catalog. \<not> set (map fst catalog) \<subseteq> set (map fst M) \<longrightarrow>
         (\<exists>e. import_module M catalog = Inl e
            \<and> (\<forall>W get_text content.
                   find_nutrient_values_in (import_module M catalog) W get_text
                     (content::pystr) = Inl e
                 \<and> find_nutrient_mentions_in (import_module M catalog) W get_text
                     content = Inl e))"
    using catalog_kinds_are_mentioned by (elim conjE)
  with viol obtain e where e: "import_module short_dictionary long_catalog = Inl e"
    and call: "\<forall>W get_text content.
          find_nutrient_values_in (import_module short_dictionary long_catalog) W get_text
            (content::pystr) = Inl e
        \<and> find_nutrient_mentions_in (import_module short_dictionary long_catalog) W get_text
            content = Inl e"
    by blast
  from e short_dictionary_build have "e = KeyError ''vitamin_c''"
    by (simp add: import_module_def)
  with viol e call show ?thesis by simp
qed

section \<open>Properties of \<open>batch_insert\<close>\<close>

lemma succ_mod:
  assumes "0 < (b::int)"
  shows "(r + 1) mod b = (if r mod b + 1 = b then 0 else r mod b + 1)"
proof -
  have e: "(r + 1) mod b = (r mod b + 1) mod b"
    by (simp add: mod_add_left_eq)
  have lo: "0 \<le> r mod b" and hi: "r mod b < b"
    using assms by simp_all
  show ?thesis
  proof (cases "r mod b + 1 = b")
    case True
    then show ?thesis using e by simp
  next
    case False
    with hi have "r mod b + 1 < b" by linarith
    with lo e False show ?thesis by (simp add: mod_pos_pos_trivial)
  qed
qed

lemma batch_loop_inv:
  assumes "0 < bs" and "int (length ins) = rows mod bs"
  shows "\<exists>ins' cs. batch_loop bs data rows ins db = Inr (rows + int (length data), ins', db @ cs)
           \<and> concat cs @ ins' = ins @ data
           \<and> (\<forall>c \<in> set cs. int (length c) = bs)
           \<and> int (length ins') = (rows + int (length data)) mod bs"
  using assms
proof (induction data arbitrary: rows ins db)
  case Nil
  then show ?case by simp
next
  case (Cons item data)
  note sm = succ_mod [OF Cons.prems(1), of rows]
  have sz: "rows + 1 + int (length data) = rows + int (length (item # data))"
    by simp
  show ?case
  proof (cases "(rows + 1) mod bs = 0")
    case True
    have full: "int (length (ins @ [item])) = bs"
    proof (cases "rows mod bs + 1 = bs")
      case True
      with Cons.prems(2) show ?thesis by simp
    next
      case False
      with sm True have "rows mod bs + 1 = 0" by simp
      moreover have "0 \<le> rows mod bs" using Cons.prems(1) by simp
      ultimately show ?thesis by linarith
    qed
    have pre: "int (length ([]::'a list)) = (rows + 1) mod bs"
      using True by simp
    from Cons.IH [OF Cons.prems(1) pre, of "db @ [ins @ [item]]"]
    obtain ins' cs where
      run: "batch_loop bs data (rows + 1) [] (db @ [ins @ [item]])
              = Inr (rows + 1 + int (length data), ins', (db @ [ins @ [item]]) @ cs)"
      and cat: "concat cs @ ins' = [] @ data"
      and len: "\<forall>c \<in> set cs. int (length c) = bs"
      and rest: "int (length ins') = (rows + 1 + int (length data)) mod bs"
      by blast
    have "batch_loop bs (item # data) rows ins db
            = Inr (rows + int (length (item # data)), ins', db @ ((ins @ [item]) # cs))"
      using run True Cons.prems(1) sz by simp
    moreover have "concat ((ins @ [item]) # cs) @ ins' = ins @ item # data"
      using cat by simp
    moreover have "\<forall>c \<in> set ((ins @ [item]) # cs). int (length c) = bs"
      using len full by simp
    moreover have "int (length ins') = (rows + int (length (item # data))) mod bs"
      using rest sz by simp
    ultimately show ?thesis by blast
  next
    case False
    have step: "int (length (ins @ [item])) = (rows + 1) mod bs"
    proof (cases "rows mod bs + 1 = bs")
      case True
      with sm False show ?thesis by simp
    next
      case F: False
      with sm Cons.prems(2) show ?thesis by simp
    qed
    from Cons.IH [OF Cons.prems(1) step, of db]
    obtain ins' cs where
      run: "batch_loop bs data (rows + 1) (ins @ [item]) db
              = Inr (rows + 1 + int (length data), ins', db @ cs)"
      and cat: "concat cs @ ins' = (ins @ [item]) @ data"
      and len: "\<forall>c \<in> set cs. int (length c) = bs"
      and rest: "int (length ins') = (rows + 1 + int (length data)) mod bs"
      by blast
    have "batch_loop bs (item # data) rows ins db
            = Inr (rows + int (length (item # data)), ins', db @ cs)"
      using run False Cons.prems(1) sz by simp
    moreover have "concat cs @ ins' = ins @ item # data"
      using cat by simp
    moreover have "int (length ins') = (rows + int (length (item # data))) mod bs"
      using rest sz by simp
    ultimately show ?thesis using len by blast
  qed
qed

text \<open>
  C10.  For a finite sequence of items and a positive batch size, \<open>batch_insert\<close>
  returns the number of items; the batches it submits, in order, are the items in
  input order, each exactly once; every batch is non-empty and has at most
  \<open>batch_size\<close> items, every batch but the last exactly \<open>batch_size\<close>; and when the
  number of items is no multiple of \<open>batch_size\<close>, the last batch is the partial one
  with the remaining items.
\<close>

theorem batch_insert_chunks:
  assumes "0 < batch_size"
  shows "\<exists>chunks.
           batch_insert model_cls data batch_size = Inr (int (length data), model_cls @ chunks)
         \<and> concat chunks = data
         \<and> (\<forall>c \<in> set chunks. c \<noteq> [] \<and> int (length c) \<le> batch_size)
         \<and> (\<forall>c \<in> set (butlast chunks). int (length c) = batch_size)
         \<and> (int (length data) mod batch_size \<noteq> 0 \<longrightarrow>
              chunks \<noteq> [] \<and> int (length (last chunks)) = int (length data) mod batch_size)"
proof -
  have start: "int (length ([]::'a list)) = 0 mod batch_size" by simp
  have "\<exists>ins' cs. batch_loop batch_size data 0 [] model_cls
             = Inr (0 + int (length data), ins', model_cls @ cs)
           \<and> concat cs @ ins' = [] @ data
           \<and> (\<forall>c \<in> set cs. int (length c) = batch_size)
           \<and> int (length ins') = (0 + int (length data)) mod batch_size"
    by (rule batch_loop_inv [OF assms start])
  then obtain ins' cs where
    run: "batch_loop batch_size data 0 [] model_cls = Inr (int (length data), ins', model_cls @ cs)"
    and cat: "concat cs @ ins' = data"
    and len: "\<forall>c \<in> set cs. int (length c) = batch_size"
    and rest: "int (length ins') = int (length data) mod batch_size"
    by (elim exE conjE) simp
  have bound: "int (length ins') < batch_size"
    using rest assms by simp
  have full: "\<forall>c \<in> set cs. c \<noteq> [] \<and> int (length c) \<le> batch_size"
  proof
    fix c assume "c \<in> set cs"
    with len have "int (length c) = batch_size" by simp
    with assms show "c \<noteq> [] \<and> int (length c) \<le> batch_size" by auto
  qed
  show ?thesis
  proof (cases "ins' = []")
    case True
    have r: "batch_insert model_cls data batch_size = Inr (int (length data), model_cls @ cs)"
      using run True by (simp add: batch_insert_def)
    have c: "concat cs = data" using cat True by simp
    have b: "\<forall>c \<in> set (butlast cs). int (length c) = batch_size"
    proof
      fix c assume "c \<in> set (butlast cs)"
      then have "c \<in> set cs" by (rule in_set_butlastD)
      with len show "int (length c) = batch_size" by simp
    qed
    have z: "int (length data) mod batch_size = 0"
      using rest True by simp
    show ?thesis
      apply (rule exI [of _ cs])
      using r c full b z apply simp
      done
  next
    case False
    have r: "batch_insert model_cls data batch_size
            = Inr (int (length data), model_cls @ (cs @ [ins']))"
      using run False by (simp add: batch_insert_def)
    have c: "concat (cs @ [ins']) = data" using cat by simp
    have f: "\<forall>c \<in> set (cs @ [ins']). c \<noteq> [] \<and> int (length c) \<le> batch_size"
      using full False bound by simp
    have b: "\<forall>c \<in> set (butlast (cs @ [ins'])). int (length c) = batch_size"
      using len by simp
    have l: "cs @ [ins'] \<noteq> []
        \<and> int (length (last (cs @ [ins']))) = int (length data) mod batch_size"
      using rest by simp
    show ?thesis
      apply (rule exI [of _ "cs @ [ins']"])
      using r c f b l apply blast
      done
  qed
qed

theorem batch_insert_chunks_witness:
  "(0::int) < 2
   \<and> batch_insert [] [1, 2, 3, 4, 5 :: nat] 2 = Inr (5, [[1, 2], [3, 4], [5]])
   \<and> concat [[1, 2], [3, 4], [5 :: nat]] = [1, 2, 3, 4, 5]"
proof -
  have pos: "(0::int) < 2" by simp
  from batch_insert_chunks [OF pos, of "[]" "[1, 2, 3, 4, 5 :: nat]"]
  obtain chunks where
    c: "batch_insert [] [1, 2, 3, 4, 5 :: nat] 2 = Inr (int (length [1, 2, 3, 4, 5 :: nat]), [] @ chunks)"
       "concat chunks = [1, 2, 3, 4, 5 :: nat]"
    by blast
  have run: "batch_insert [] [1, 2, 3, 4, 5 :: nat] 2 = Inr (5, [[1, 2], [3, 4], [5]])"
    by (simp add: batch_insert_def)
  from c run have "chunks = [[1, 2], [3, 4], [5]]" by simp
  with c(2) run show ?thesis by simp
qed

end
